theory Spec2Isabelle
  imports Main
begin

section \<open>The node store of \<open>PA 4/red_black_tree.h\<close>\<close>

text \<open>
  The tree of \<open>red_black_tree.h\<close> is a graph of heap nodes linked by raw pointers
  (\<open>left\<close>, \<open>right\<close>, \<open>parent\<close>). The model keeps that graph: a pointer is an optional
  address (\<open>None\<close> is \<open>nullptr\<close>), the store maps the addresses of live nodes to their
  fields, \<open>new\<close> takes the next unused address and \<open>delete\<close> removes the address from the
  store. Reading or writing through \<open>nullptr\<close> or through a pointer to a deleted node is
  undefined behaviour in the source; the model returns an error value there.
\<close>

datatype Color = RED | BLACK

type_synonym addr = nat
type_synonym ptr = "addr option"

record 'a Node =
  val :: 'a
  color :: Color
  left :: ptr
  right :: ptr
  parent :: ptr

datatype error =
    NullDeref      \<comment> \<open>a field of \<open>nullptr\<close> is read or written\<close>
  | Dangling       \<comment> \<open>a field of a deleted node is read or written\<close>
  | OutOfFuel      \<comment> \<open>the recursion budget of the model is used up\<close>
  | EmptyTree      \<comment> \<open>\<open>invalid_argument("Red Black Tree is empty")\<close>\<close>

record 'a RedBlackTree =
  heap :: "addr \<Rightarrow> 'a Node option"
  root :: ptr
  fresh :: addr

text \<open>A reference parameter \<open>const Comparable& value\<close>: bound either to an object of the
  caller, which no tree operation changes, or to the \<open>value\<close> field of a node.\<close>

datatype 'a vref = Const 'a | ValOf ptr

definition seq :: "error + 'b \<Rightarrow> ('b \<Rightarrow> error + 'c) \<Rightarrow> error + 'c" where
  "seq m f = (case m of Inl e \<Rightarrow> Inl e | Inr x \<Rightarrow> f x)"

definition deref :: "'a RedBlackTree \<Rightarrow> ptr \<Rightarrow> error + 'a Node" where
  "deref s p =
     (case p of None \<Rightarrow> Inl NullDeref
      | Some a \<Rightarrow> (case heap s a of None \<Rightarrow> Inl Dangling | Some n \<Rightarrow> Inr n))"

definition get :: "'a RedBlackTree \<Rightarrow> ptr \<Rightarrow> ('a Node \<Rightarrow> 'b) \<Rightarrow> error + 'b" where
  "get s p field = seq (deref s p) (\<lambda>n. Inr (field n))"

definition put :: "'a RedBlackTree \<Rightarrow> ptr \<Rightarrow> ('a Node \<Rightarrow> 'a Node) \<Rightarrow> error + 'a RedBlackTree" where
  "put s p f =
     (case p of None \<Rightarrow> Inl NullDeref
      | Some a \<Rightarrow> (case heap s a of None \<Rightarrow> Inl Dangling
                   | Some n \<Rightarrow> Inr (s\<lparr>heap := (heap s)(a \<mapsto> f n)\<rparr>)))"

definition set_val :: "'a RedBlackTree \<Rightarrow> ptr \<Rightarrow> 'a \<Rightarrow> error + 'a RedBlackTree" where
  "set_val s p x = put s p (\<lambda>n. n\<lparr>val := x\<rparr>)"

definition set_color :: "'a RedBlackTree \<Rightarrow> ptr \<Rightarrow> Color \<Rightarrow> error + 'a RedBlackTree" where
  "set_color s p c = put s p (\<lambda>n. n\<lparr>color := c\<rparr>)"

definition set_left :: "'a RedBlackTree \<Rightarrow> ptr \<Rightarrow> ptr \<Rightarrow> error + 'a RedBlackTree" where
  "set_left s p q = put s p (\<lambda>n. n\<lparr>left := q\<rparr>)"

definition set_right :: "'a RedBlackTree \<Rightarrow> ptr \<Rightarrow> ptr \<Rightarrow> error + 'a RedBlackTree" where
  "set_right s p q = put s p (\<lambda>n. n\<lparr>right := q\<rparr>)"

definition set_parent :: "'a RedBlackTree \<Rightarrow> ptr \<Rightarrow> ptr \<Rightarrow> error + 'a RedBlackTree" where
  "set_parent s p q = put s p (\<lambda>n. n\<lparr>parent := q\<rparr>)"

text \<open>\<open>new Node(value, color)\<close>: both children and the parent are \<open>nullptr\<close>.\<close>

definition new_Node :: "'a RedBlackTree \<Rightarrow> 'a \<Rightarrow> Color \<Rightarrow> ptr \<times> 'a RedBlackTree" where
  "new_Node s x c =
     (Some (fresh s),
      s\<lparr>heap := (heap s)(fresh s \<mapsto> \<lparr>val = x, color = c, left = None, right = None, parent = None\<rparr>),
        fresh := Suc (fresh s)\<rparr>)"

text \<open>\<open>delete p\<close>: nothing for \<open>nullptr\<close>, undefined for a node already deleted.\<close>

definition delete :: "'a RedBlackTree \<Rightarrow> ptr \<Rightarrow> error + 'a RedBlackTree" where
  "delete s p =
     (case p of None \<Rightarrow> Inr s
      | Some a \<Rightarrow> (case heap s a of None \<Rightarrow> Inl Dangling
                   | Some n \<Rightarrow> Inr (s\<lparr>heap := (heap s)(a := None)\<rparr>)))"

definition read_ref :: "'a RedBlackTree \<Rightarrow> 'a vref \<Rightarrow> error + 'a" where
  "read_ref s r = (case r of Const x \<Rightarrow> Inr x | ValOf p \<Rightarrow> get s p val)"

definition RedBlackTree :: "'a RedBlackTree" where
  "RedBlackTree = \<lparr>heap = (\<lambda>a. None), root = None, fresh = 0\<rparr>"

subsection \<open>Methods of \<open>Node\<close>\<close>

definition isLeft :: "'a RedBlackTree \<Rightarrow> ptr \<Rightarrow> error + bool" where
  "isLeft s this =
     seq (get s this parent) (\<lambda>p.
     if p \<noteq> None then seq (get s p left) (\<lambda>l. Inr (this = l)) else Inr False)"

definition isRight :: "'a RedBlackTree \<Rightarrow> ptr \<Rightarrow> error + bool" where
  "isRight s this =
     seq (get s this parent) (\<lambda>p.
     if p \<noteq> None then seq (get s p right) (\<lambda>r. Inr (this = r)) else Inr False)"

definition isLeaf :: "'a RedBlackTree \<Rightarrow> ptr \<Rightarrow> error + bool" where
  "isLeaf s this = seq (deref s this) (\<lambda>n. Inr (left n = None \<and> right n = None))"

text \<open>\<open>p && p->color == c\<close>\<close>

definition is_colored :: "'a RedBlackTree \<Rightarrow> ptr \<Rightarrow> Color \<Rightarrow> error + bool" where
  "is_colored s p c = (if p = None then Inr False else seq (get s p color) (\<lambda>d. Inr (d = c)))"

definition hasColorChild :: "'a RedBlackTree \<Rightarrow> ptr \<Rightarrow> Color \<Rightarrow> error + bool" where
  "hasColorChild s this c =
     seq (deref s this) (\<lambda>n.
     seq (is_colored s (left n) c) (\<lambda>a.
     if a then Inr True else is_colored s (right n) c))"

definition hasColorChildren :: "'a RedBlackTree \<Rightarrow> ptr \<Rightarrow> Color \<Rightarrow> error + bool" where
  "hasColorChildren s this c =
     seq (isLeaf s this) (\<lambda>lf.
     if lf \<and> c = BLACK then Inr True
     else seq (deref s this) (\<lambda>n.
          seq (is_colored s (left n) c) (\<lambda>a.
          if a then is_colored s (right n) c else Inr False)))"

definition sibling :: "'a RedBlackTree \<Rightarrow> ptr \<Rightarrow> error + ptr" where
  "sibling s this =
     seq (get s this parent) (\<lambda>p.
     if p = None then Inr None
     else seq (isLeft s this) (\<lambda>il. if il then get s p right else get s p left))"

subsection \<open>Rotations\<close>

definition rotateLeft :: "'a RedBlackTree \<Rightarrow> ptr \<Rightarrow> error + (ptr \<times> 'a RedBlackTree)" where
  "rotateLeft s node =
     seq (get s node right) (\<lambda>temp.
     seq (get s temp left) (\<lambda>tl.
     seq (set_right s node tl) (\<lambda>s.
     seq (get s temp left) (\<lambda>tl.
     seq (if tl \<noteq> None then set_parent s tl node else Inr s) (\<lambda>s.
     seq (get s node parent) (\<lambda>np.
     seq (set_parent s temp np) (\<lambda>s.
     seq (get s node parent) (\<lambda>np.
     seq (if np = None then Inr (s\<lparr>root := temp\<rparr>)
          else seq (isLeft s node) (\<lambda>il.
               if il then set_left s np temp
               else seq (isRight s node) (\<lambda>ir.
                    if ir then set_right s np temp else Inr s))) (\<lambda>s.
     seq (set_left s temp node) (\<lambda>s.
     seq (set_parent s node temp) (\<lambda>s.
     Inr (temp, s))))))))))))"

definition rotateRight :: "'a RedBlackTree \<Rightarrow> ptr \<Rightarrow> error + (ptr \<times> 'a RedBlackTree)" where
  "rotateRight s node =
     seq (get s node left) (\<lambda>temp.
     seq (get s temp right) (\<lambda>tr.
     seq (set_left s node tr) (\<lambda>s.
     seq (get s temp right) (\<lambda>tr.
     seq (if tr \<noteq> None then set_parent s tr node else Inr s) (\<lambda>s.
     seq (get s node parent) (\<lambda>np.
     seq (set_parent s temp np) (\<lambda>s.
     seq (get s node parent) (\<lambda>np.
     seq (if np = None then Inr (s\<lparr>root := temp\<rparr>)
          else seq (isRight s node) (\<lambda>ir.
               if ir then set_right s np temp
               else seq (isLeft s node) (\<lambda>il.
                    if il then set_left s np temp else Inr s))) (\<lambda>s.
     seq (set_right s temp node) (\<lambda>s.
     seq (set_parent s node temp) (\<lambda>s.
     Inr (temp, s))))))))))))"

subsection \<open>Search and minimum\<close>

fun search :: "nat \<Rightarrow> 'a::linorder RedBlackTree \<Rightarrow> ptr \<Rightarrow> 'a \<Rightarrow> error + ptr" where
  "search 0 s root' value = Inl OutOfFuel"
| "search (Suc k) s root' value =
     (if root' = None then Inr None
      else seq (get s root' val) (\<lambda>rv.
           if rv = value then Inr root'
           else if rv < value then seq (get s root' right) (\<lambda>r. search k s r value)
           else seq (get s root' left) (\<lambda>l. search k s l value)))"

text \<open>The loop \<open>while (node && node->left) node = node->left;\<close> of the private
  \<open>find_min\<close>.\<close>

fun find_min_priv :: "nat \<Rightarrow> 'a RedBlackTree \<Rightarrow> ptr \<Rightarrow> error + ptr" where
  "find_min_priv 0 s node = Inl OutOfFuel"
| "find_min_priv (Suc k) s node =
     (if node = None then Inr node
      else seq (get s node left) (\<lambda>l.
           if l \<noteq> None then find_min_priv k s l else Inr node))"

text \<open>The loop \<open>while (node->right) node = node->right;\<close> of the public \<open>find_max\<close>.\<close>

fun find_max_loop :: "nat \<Rightarrow> 'a RedBlackTree \<Rightarrow> ptr \<Rightarrow> error + ptr" where
  "find_max_loop 0 s node = Inl OutOfFuel"
| "find_max_loop (Suc k) s node =
     seq (get s node right) (\<lambda>r.
     if r \<noteq> None then find_max_loop k s r else Inr node)"

subsection \<open>Insertion\<close>

text \<open>
  The private \<open>insert\<close> (lines 315--399) is modelled block by block, each block a
  definition of its own, in the order of the source:
  \<^item> \<open>attach_left\<close>, \<open>attach_right\<close>: the bodies of \<open>if (node->value > value)\<close> and
    \<open>if (node->value < value)\<close>, which either return from \<open>insert\<close> or fall through;
  \<^item> \<open>insert_next\<close>: the rest of the body, from \<open>if (node->hasColorChildren(RED))\<close> on.
    Each of its branches ends in \<open>this->insert(next, value); return;\<close>, so the block
    yields the pointer \<open>next\<close> and the recursive call is made once, by \<open>insert_priv\<close>.
\<close>

datatype 's flow = Return 's | Next 's

text \<open>\<open>a && b\<close> on two fallible tests: \<open>b\<close> is evaluated only when \<open>a\<close> holds.\<close>

definition and_then :: "error + bool \<Rightarrow> error + bool \<Rightarrow> error + bool" where
  "and_then a b = seq a (\<lambda>x. if x then b else Inr False)"

text \<open>The statements \<open>node->color = BLACK; node->left->color = node->right->color = RED;\<close>
  that close each rotation case of \<open>insert\<close> (the right operand of an assignment is
  evaluated first, so the right child is written before the left one).\<close>

definition recolor_rl :: "'a RedBlackTree \<Rightarrow> ptr \<Rightarrow> error + 'a RedBlackTree" where
  "recolor_rl s node =
     seq (set_color s node BLACK) (\<lambda>s.
     seq (get s node right) (\<lambda>nr.
     seq (set_color s nr RED) (\<lambda>s.
     seq (get s node left) (\<lambda>nl.
     set_color s nl RED))))"

text \<open>\<open>node->color = BLACK; node->right->color = node->left->color = RED;\<close>\<close>

definition recolor_lr :: "'a RedBlackTree \<Rightarrow> ptr \<Rightarrow> error + 'a RedBlackTree" where
  "recolor_lr s node =
     seq (set_color s node BLACK) (\<lambda>s.
     seq (get s node left) (\<lambda>nl.
     seq (set_color s nl RED) (\<lambda>s.
     seq (get s node right) (\<lambda>nr.
     set_color s nr RED))))"

text \<open>Lines 323--324 and 342--343: \<open>node->left = new Node(value); node->left->parent = node;\<close>
  and the same on the right.\<close>

definition hang_left :: "'a RedBlackTree \<Rightarrow> ptr \<Rightarrow> 'a \<Rightarrow> error + 'a RedBlackTree" where
  "hang_left s node value =
     (case new_Node s value RED of (p, s) \<Rightarrow>
      seq (set_left s node p) (\<lambda>s.
      seq (get s node left) (\<lambda>nl.
      set_parent s nl node)))"

definition hang_right :: "'a RedBlackTree \<Rightarrow> ptr \<Rightarrow> 'a \<Rightarrow> error + 'a RedBlackTree" where
  "hang_right s node value =
     (case new_Node s value RED of (p, s) \<Rightarrow>
      seq (set_right s node p) (\<lambda>s.
      seq (get s node right) (\<lambda>nr.
      set_parent s nr node)))"

text \<open>Lines 322--339.\<close>

definition attach_left :: "'a RedBlackTree \<Rightarrow> ptr \<Rightarrow> 'a \<Rightarrow> error + 'a RedBlackTree flow" where
  "attach_left s node value =
     seq (get s node left) (\<lambda>nl.
     if nl = None then
       seq (hang_left s node value) (\<lambda>s.
       seq (get s node color) (\<lambda>c.
       if c = BLACK then Inr (Return s)
       else
       seq (sibling s node) (\<lambda>sb.
       if sb = None then
         seq (isLeft s node) (\<lambda>il.
         seq (if il then seq (get s node parent) (\<lambda>np. rotateRight s np)
              else seq (rotateRight s node) (\<lambda>(node, s).
                   seq (get s node parent) (\<lambda>np. rotateLeft s np))) (\<lambda>(node, s).
         seq (recolor_rl s node) (\<lambda>s.
         Inr (Return s))))
       else Inr (Next s))))
     else Inr (Next s))"

text \<open>Lines 341--357.\<close>

definition attach_right :: "'a RedBlackTree \<Rightarrow> ptr \<Rightarrow> 'a \<Rightarrow> error + 'a RedBlackTree flow" where
  "attach_right s node value =
     seq (get s node right) (\<lambda>nr.
     if nr = None then
       seq (hang_right s node value) (\<lambda>s.
       seq (get s node color) (\<lambda>c.
       if c = BLACK then Inr (Return s)
       else
       seq (sibling s node) (\<lambda>sb.
       if sb = None then
         seq (isRight s node) (\<lambda>ir.
         seq (if ir then seq (get s node parent) (\<lambda>np. rotateLeft s np)
              else seq (rotateLeft s node) (\<lambda>(node, s).
                   seq (get s node parent) (\<lambda>np. rotateRight s np))) (\<lambda>(node, s).
         seq (recolor_lr s node) (\<lambda>s.
         Inr (Return s))))
       else Inr (Next s))))
     else Inr (Next s))"

text \<open>Line 398: \<open>node->value > value ? node->left : node->right\<close>.\<close>

definition insert_child :: "'a::linorder RedBlackTree \<Rightarrow> ptr \<Rightarrow> 'a \<Rightarrow> error + ptr" where
  "insert_child s node value =
     seq (get s node val) (\<lambda>nv.
     if nv > value then get s node left else get s node right)"

text \<open>Lines 364--395: the four rotation patterns under a red parent. The result is the
  pointer the source passes to the recursive call, or \<open>None\<close> with the tree untouched when
  no pattern applies.\<close>

definition insert_rotate :: "'a RedBlackTree \<Rightarrow> ptr \<Rightarrow> error + (ptr option \<times> 'a RedBlackTree)" where
  "insert_rotate s node =
     seq (get s node parent) (\<lambda>np.
     seq (is_colored s np RED) (\<lambda>pr.
     if pr then
       seq (and_then (isLeft s node) (isLeft s np)) (\<lambda>ll.
       if ll then
         seq (get s np parent) (\<lambda>g.
         seq (rotateRight s g) (\<lambda>(node, s).
         seq (recolor_rl s node) (\<lambda>s.
         seq (get s node left) (\<lambda>l. Inr (Some l, s)))))
       else
       seq (and_then (isRight s node) (isRight s np)) (\<lambda>rr.
       if rr then
         seq (get s np parent) (\<lambda>g.
         seq (rotateLeft s g) (\<lambda>(node, s).
         seq (recolor_rl s node) (\<lambda>s.
         seq (get s node left) (\<lambda>l. Inr (Some l, s)))))
       else
       seq (and_then (isRight s node) (isLeft s np)) (\<lambda>rl.
       if rl then
         seq (rotateLeft s np) (\<lambda>(node, s).
         seq (get s node parent) (\<lambda>np.
         seq (rotateRight s np) (\<lambda>(node, s).
         seq (recolor_rl s node) (\<lambda>s.
         seq (get s node left) (\<lambda>l. Inr (Some l, s))))))
       else
       seq (and_then (isLeft s node) (isRight s np)) (\<lambda>lr.
       if lr then
         seq (rotateRight s np) (\<lambda>(node, s).
         seq (get s node parent) (\<lambda>np.
         seq (rotateLeft s np) (\<lambda>(node, s).
         seq (recolor_rl s node) (\<lambda>s.
         seq (get s node right) (\<lambda>r. Inr (Some r, s))))))
       else Inr (None, s)))))
     else Inr (None, s)))"

text \<open>Lines 360--398.\<close>

definition insert_next :: "'a::linorder RedBlackTree \<Rightarrow> ptr \<Rightarrow> 'a \<Rightarrow> error + (ptr \<times> 'a RedBlackTree)" where
  "insert_next s node value =
     seq (hasColorChildren s node RED) (\<lambda>cc.
     if cc then
       seq (set_color s node RED) (\<lambda>s.
       seq (get s node left) (\<lambda>nl.
       seq (set_color s nl BLACK) (\<lambda>s.
       seq (get s node right) (\<lambda>nr.
       seq (set_color s nr BLACK) (\<lambda>s.
       seq (insert_rotate s node) (\<lambda>(next, s).
       case next of Some n \<Rightarrow> Inr (n, s)
       | None \<Rightarrow> seq (insert_child s node value) (\<lambda>c. Inr (c, s))))))))
     else seq (insert_child s node value) (\<lambda>c. Inr (c, s)))"

fun insert_priv :: "nat \<Rightarrow> 'a::linorder RedBlackTree \<Rightarrow> ptr \<Rightarrow> 'a \<Rightarrow> error + 'a RedBlackTree" where
  "insert_priv 0 s node value = Inl OutOfFuel"
| "insert_priv (Suc k) s node value =
     (if root s = None then
        (case new_Node s value BLACK of (p, s) \<Rightarrow> Inr (s\<lparr>root := p\<rparr>))
      else
        seq (get s node val) (\<lambda>nv.
        if nv = value then Inr s
        else
          seq (if nv > value then attach_left s node value
               else if nv < value then attach_right s node value
               else Inr (Next s)) (\<lambda>fl.
          case fl of Return s \<Rightarrow> Inr s
          | Next s \<Rightarrow>
              seq (insert_next s node value) (\<lambda>(next, s).
              insert_priv k s next value))))"

subsection \<open>Removal\<close>

text \<open>
  \<open>removeNode\<close> takes its pointer by reference and sets it to \<open>nullptr\<close> after the
  \<open>delete\<close>; every caller passes its own parameter \<open>node\<close> and returns without reading it
  again, so the model passes the pointer by value. \<open>removeNode\<close> calls \<open>remove\<close> with the
  reference \<open>replace->value\<close>: the second argument of \<open>remove\<close> is a \<open>vref\<close>, read from the
  store wherever the source reads \<open>value\<close>.

  The rebalancing blocks of the private \<open>remove\<close> (lines 261--313) are definitions of
  their own: \<open>recolor_pair\<close> (lines 273--274), \<open>rotate_niblings\<close> (lines 282--293) and
  \<open>rotate_red_child\<close> (lines 296--306).
\<close>

text \<open>\<open>node->value < value ? node->right : node->left\<close>\<close>

definition remove_child :: "'a::linorder RedBlackTree \<Rightarrow> ptr \<Rightarrow> 'a vref \<Rightarrow> error + ptr" where
  "remove_child s node value =
     seq (get s node val) (\<lambda>nv.
     seq (read_ref s value) (\<lambda>v.
     if nv < v then get s node right else get s node left))"

text \<open>\<open>node->parent->color = BLACK; sibling->color = node->color = RED;\<close>\<close>

definition recolor_pair :: "'a RedBlackTree \<Rightarrow> ptr \<Rightarrow> ptr \<Rightarrow> error + 'a RedBlackTree" where
  "recolor_pair s node sibling' =
     seq (get s node parent) (\<lambda>np.
     seq (set_color s np BLACK) (\<lambda>s.
     seq (set_color s node RED) (\<lambda>s.
     set_color s sibling' RED)))"

definition rotate_niblings :: "'a RedBlackTree \<Rightarrow> ptr \<Rightarrow> ptr \<Rightarrow> error + 'a RedBlackTree" where
  "rotate_niblings s node sibling' =
     seq (isLeft s node) (\<lambda>il.
     seq (if il then get s sibling' right else get s sibling' left) (\<lambda>closeNibling.
     seq (sibling s closeNibling) (\<lambda>distantNibling.
     seq (get s closeNibling color) (\<lambda>cc.
     if cc = RED then
       seq (isLeft s closeNibling) (\<lambda>cl.
       seq (if cl then rotateRight s sibling' else rotateLeft s sibling') (\<lambda>(sibling', s).
       seq (isLeft s sibling') (\<lambda>sl.
       seq (get s node parent) (\<lambda>np.
       seq (if sl then rotateRight s np else rotateLeft s np) (\<lambda>(sibling', s).
       seq (set_color s node RED) (\<lambda>s.
       seq (get s node parent) (\<lambda>np.
       set_color s np BLACK)))))))
     else
       seq (get s distantNibling color) (\<lambda>dc.
       if dc = RED then
         seq (isLeft s sibling') (\<lambda>sl.
         seq (get s node parent) (\<lambda>np.
         seq (if sl then rotateRight s np else rotateLeft s np) (\<lambda>(sibling', s).
         seq (set_color s sibling' RED) (\<lambda>s.
         seq (set_color s node RED) (\<lambda>s.
         seq (set_color s distantNibling BLACK) (\<lambda>s.
         seq (get s node parent) (\<lambda>np.
         set_color s np BLACK)))))))
       else Inr s)))))"

definition rotate_red_child :: "'a RedBlackTree \<Rightarrow> ptr \<Rightarrow> error + 'a RedBlackTree" where
  "rotate_red_child s node =
     seq (get s node color) (\<lambda>c.
     if c = BLACK then
       seq (isRight s node) (\<lambda>ir.
       seq (if ir then seq (get s node parent) (\<lambda>np.
                       seq (rotateRight s np) (\<lambda>(x, s). Inr s))
            else seq (isLeft s node) (\<lambda>il.
                 if il then seq (get s node parent) (\<lambda>np.
                            seq (rotateLeft s np) (\<lambda>(x, s). Inr s))
                 else Inr s)) (\<lambda>s.
       seq (set_color s node BLACK) (\<lambda>s.
       if node \<noteq> root s then
         seq (get s node parent) (\<lambda>np.
         seq (get s np parent) (\<lambda>g.
         seq (set_color s g BLACK) (\<lambda>s.
         seq (get s node parent) (\<lambda>np.
         set_color s np RED))))
       else Inr s)))
     else Inr s)"

text \<open>\<open>swap(node->value, replace->value)\<close>\<close>

definition swap_values :: "'a RedBlackTree \<Rightarrow> ptr \<Rightarrow> ptr \<Rightarrow> error + 'a RedBlackTree" where
  "swap_values s node replace =
     seq (get s node val) (\<lambda>a.
     seq (get s replace val) (\<lambda>b.
     seq (set_val s node b) (\<lambda>s.
     set_val s replace a)))"

text \<open>Lines 246--254 of \<open>removeNode\<close>: unlinking and deleting a leaf.\<close>

definition unlink_leaf :: "'a RedBlackTree \<Rightarrow> ptr \<Rightarrow> error + 'a RedBlackTree" where
  "unlink_leaf s node =
     seq (isLeft s node) (\<lambda>il.
     seq (get s node parent) (\<lambda>np.
     seq (if il then set_left s np None else set_right s np None) (\<lambda>s.
     delete s node)))"

text \<open>In \<open>remove_priv\<close>, \<open>step\<close> is the statement that ends every path of the source
  (lines 267--270, 275--278 and 309--312):
  \<open>if (node->value == value) removeNode(node); else remove(child, value);\<close>\<close>

fun remove_priv :: "nat \<Rightarrow> 'a::linorder RedBlackTree \<Rightarrow> ptr \<Rightarrow> 'a vref \<Rightarrow> error + 'a RedBlackTree"
and removeNode :: "nat \<Rightarrow> 'a::linorder RedBlackTree \<Rightarrow> ptr \<Rightarrow> error + 'a RedBlackTree" where
  "remove_priv 0 s node value = Inl OutOfFuel"
| "remove_priv (Suc k) s node value =
     (if node = None then Inr s
      else
        let step = (\<lambda>s.
              seq (get s node val) (\<lambda>nv.
              seq (read_ref s value) (\<lambda>v.
              if nv = v then removeNode k s node
              else seq (remove_child s node value) (\<lambda>c. remove_priv k s c value))))
        in
        seq (hasColorChildren s node BLACK) (\<lambda>hb.
        if hb then
          seq (sibling s node) (\<lambda>sibling'.
          if sibling' = None then step s
          else
          seq (hasColorChildren s sibling' BLACK) (\<lambda>sb.
          if sb then seq (recolor_pair s node sibling') step
          else
            seq (rotate_niblings s node sibling') (\<lambda>s.
            seq (remove_child s node value) (\<lambda>c.
            seq (remove_priv k s c value) step))))
        else
          seq (hasColorChild s node RED) (\<lambda>hr.
          if hr then seq (rotate_red_child s node) step
          else step s)))"
| "removeNode 0 s node = Inl OutOfFuel"
| "removeNode (Suc k) s node =
     seq (isLeaf s node) (\<lambda>lf.
     if lf then unlink_leaf s node
     else
       seq (get s node right) (\<lambda>nr.
       seq (if nr \<noteq> None then find_min_priv k s nr else get s node left) (\<lambda>replace.
       seq (swap_values s node replace) (\<lambda>s.
       remove_priv k s replace (ValOf replace)))))"

subsection \<open>Deallocation and copying\<close>

text \<open>\<open>clear\<close> takes \<open>Node*& root\<close> and ends with \<open>root = nullptr\<close>; at the recursive
  calls the reference is the child field just overwritten by the assignment of the
  result, and at \<open>make_empty\<close> it is \<open>_root\<close>, so the model returns the store only.\<close>

fun clear :: "nat \<Rightarrow> 'a RedBlackTree \<Rightarrow> ptr \<Rightarrow> error + 'a RedBlackTree" where
  "clear 0 s root' = Inl OutOfFuel"
| "clear (Suc k) s root' =
     (if root' \<noteq> None then
        seq (get s root' left) (\<lambda>l.
        seq (clear k s l) (\<lambda>s.
        seq (set_left s root' None) (\<lambda>s.
        seq (get s root' right) (\<lambda>r.
        seq (clear k s r) (\<lambda>s.
        seq (set_right s root' None) (\<lambda>s.
        seq (set_parent s root' None) (\<lambda>s.
        delete s root')))))))
      else Inr s)"

text \<open>\<open>node->left = c; if (node->left) node->left->parent = node;\<close> where \<open>c\<close> is the
  result of the recursive call, and the same for the right child.\<close>

definition link_left :: "'a RedBlackTree \<Rightarrow> ptr \<Rightarrow> ptr \<Rightarrow> error + 'a RedBlackTree" where
  "link_left s node c =
     seq (set_left s node c) (\<lambda>s.
     seq (get s node left) (\<lambda>nl.
     if nl \<noteq> None then set_parent s nl node else Inr s))"

definition link_right :: "'a RedBlackTree \<Rightarrow> ptr \<Rightarrow> ptr \<Rightarrow> error + 'a RedBlackTree" where
  "link_right s node c =
     seq (set_right s node c) (\<lambda>s.
     seq (get s node right) (\<lambda>nr.
     if nr \<noteq> None then set_parent s nr node else Inr s))"

fun copy :: "nat \<Rightarrow> 'a RedBlackTree \<Rightarrow> ptr \<Rightarrow> error + (ptr \<times> 'a RedBlackTree)" where
  "copy 0 s root' = Inl OutOfFuel"
| "copy (Suc k) s root' =
     (if root' = None then Inr (None, s)
      else
        seq (deref s root') (\<lambda>n.
        case new_Node s (val n) (color n) of (node, s) \<Rightarrow>
        seq (get s root' left) (\<lambda>l.
        seq (copy k s l) (\<lambda>(c, s).
        seq (link_left s node c) (\<lambda>s.
        seq (get s root' right) (\<lambda>r.
        seq (copy k s r) (\<lambda>(c, s).
        seq (link_right s node c) (\<lambda>s.
        Inr (node, s)))))))))"

subsection \<open>The validator\<close>

fun doubleRed :: "nat \<Rightarrow> 'a RedBlackTree \<Rightarrow> ptr \<Rightarrow> error + bool" where
  "doubleRed 0 s root' = Inl OutOfFuel"
| "doubleRed (Suc k) s root' =
     (if root' = None then Inr False
      else
        seq (get s root' color) (\<lambda>c.
        seq (if c = RED then hasColorChild s root' RED else Inr False) (\<lambda>b.
        if b then Inr True
        else seq (get s root' left) (\<lambda>l.
             seq (doubleRed k s l) (\<lambda>dl.
             if dl then Inr True
             else seq (get s root' right) (\<lambda>r. doubleRed k s r))))))"

fun blackHeight :: "nat \<Rightarrow> 'a RedBlackTree \<Rightarrow> ptr \<Rightarrow> error + nat" where
  "blackHeight 0 s root' = Inl OutOfFuel"
| "blackHeight (Suc k) s root' =
     (if root' = None then Inr 1
      else
        seq (get s root' left) (\<lambda>l.
        seq (blackHeight k s l) (\<lambda>height.
        seq (get s root' color) (\<lambda>c.
        Inr (height + (if c = BLACK then 1 else 0))))))"

definition followsRules_priv :: "nat \<Rightarrow> 'a RedBlackTree \<Rightarrow> ptr \<Rightarrow> error + bool" where
  "followsRules_priv k s root' =
     seq (doubleRed k s root') (\<lambda>dr.
     seq (get s root' left) (\<lambda>l.
     seq (blackHeight k s l) (\<lambda>hl.
     seq (get s root' right) (\<lambda>r.
     seq (blackHeight k s r) (\<lambda>hr.
     Inr ((True \<and> \<not> dr) \<and> hl = hr))))))"

subsection \<open>The public interface\<close>

text \<open>
  Each public operation takes the recursion budget of the model as its first argument.
  A \<open>const\<close> method returns its result only; a mutating method returns the tree after
  the call.
\<close>

definition copy_construct :: "nat \<Rightarrow> 'a RedBlackTree \<Rightarrow> error + 'a RedBlackTree" where
  "copy_construct k rhs = seq (copy k rhs (root rhs)) (\<lambda>(p, s). Inr (s\<lparr>root := p\<rparr>))"

definition make_empty :: "nat \<Rightarrow> 'a RedBlackTree \<Rightarrow> error + 'a RedBlackTree" where
  "make_empty k s = seq (clear k s (root s)) (\<lambda>s. Inr (s\<lparr>root := None\<rparr>))"

text \<open>\<open>operator=\<close> on two trees in one store: \<open>this\<close> carries the store and its own
  \<open>_root\<close>, \<open>rhs_root\<close> is \<open>rhs._root\<close>, and \<open>same\<close> tells whether \<open>this == &rhs\<close>.\<close>

definition copy_assign :: "nat \<Rightarrow> 'a RedBlackTree \<Rightarrow> bool \<Rightarrow> ptr \<Rightarrow> error + 'a RedBlackTree" where
  "copy_assign k this same rhs_root =
     (if \<not> same then
        seq (make_empty k this) (\<lambda>s.
        seq (copy k s rhs_root) (\<lambda>(p, s). Inr (s\<lparr>root := p\<rparr>)))
      else Inr this)"

definition insert_pub :: "nat \<Rightarrow> 'a::linorder RedBlackTree \<Rightarrow> 'a \<Rightarrow> error + 'a RedBlackTree" where
  "insert_pub k s value =
     seq (insert_priv k s (root s) value) (\<lambda>s.
     set_color s (root s) BLACK)"

text \<open>The public \<open>remove(const Comparable& value)\<close> (lines 485--495) hands its reference on
  to the private \<open>remove\<close>: the argument is a \<open>vref\<close>, \<open>Const x\<close> for an object of the
  caller and \<open>ValOf p\<close> for a reference to the value of node \<open>p\<close>, as in
  \<open>t.remove(t.find_min())\<close>.\<close>

definition remove_pub :: "nat \<Rightarrow> 'a::linorder RedBlackTree \<Rightarrow> 'a vref \<Rightarrow> error + 'a RedBlackTree" where
  "remove_pub k s value =
     (if root s = None then Inr s
      else
        seq (hasColorChildren s (root s) BLACK) (\<lambda>hb.
        seq (if hb then set_color s (root s) RED else Inr s) (\<lambda>s.
        seq (remove_priv k s (root s) value) (\<lambda>s.
        if root s \<noteq> None then set_color s (root s) BLACK else Inr s))))"

definition contains :: "nat \<Rightarrow> 'a::linorder RedBlackTree \<Rightarrow> 'a \<Rightarrow> error + bool" where
  "contains k s value = seq (search k s (root s) value) (\<lambda>p. Inr (p \<noteq> None))"

definition find_min_pub :: "nat \<Rightarrow> 'a RedBlackTree \<Rightarrow> error + 'a" where
  "find_min_pub k s =
     (if root s = None then Inl EmptyTree
      else seq (find_min_priv k s (root s)) (\<lambda>p. get s p val))"

definition find_max :: "nat \<Rightarrow> 'a RedBlackTree \<Rightarrow> error + 'a" where
  "find_max k s =
     (if root s = None then Inl EmptyTree
      else seq (find_max_loop k s (root s)) (\<lambda>p. get s p val))"

definition color_of :: "'a RedBlackTree \<Rightarrow> ptr \<Rightarrow> error + Color" where
  "color_of s node = (if node \<noteq> None then get s node color else Inr BLACK)"

definition get_root :: "'a RedBlackTree \<Rightarrow> ptr" where
  "get_root s = root s"

definition followsRules :: "nat \<Rightarrow> 'a RedBlackTree \<Rightarrow> error + bool" where
  "followsRules k s = (if root s = None then Inr True else followsRules_priv k s (root s))"

definition is_empty :: "'a RedBlackTree \<Rightarrow> bool" where
  "is_empty s = (root s = None)"

section \<open>Trees held by the store\<close>

text \<open>
  The shape a pointer leads to: each node with its address, value and colour.
  \<open>is_tree h par p t\<close> says that in the store \<open>h\<close> the pointer \<open>p\<close> is the root of
  exactly the tree \<open>t\<close>, that the parent field of its top node is \<open>par\<close> and that of every
  other node is the node above it, and that no node occurs twice.
\<close>

datatype 'a tree = Leaf | Br "'a tree" addr 'a Color "'a tree"

fun addrs :: "'a tree \<Rightarrow> addr set" where
  "addrs Leaf = {}"
| "addrs (Br l a x c r) = insert a (addrs l \<union> addrs r)"

fun inorder :: "'a tree \<Rightarrow> 'a list" where
  "inorder Leaf = []"
| "inorder (Br l a x c r) = inorder l @ x # inorder r"

fun nodes :: "'a tree \<Rightarrow> nat" where
  "nodes Leaf = 0"
| "nodes (Br l a x c r) = nodes l + 1 + nodes r"

fun height :: "'a tree \<Rightarrow> nat" where
  "height Leaf = 0"
| "height (Br l a x c r) = Suc (max (height l) (height r))"

fun is_tree :: "(addr \<Rightarrow> 'a Node option) \<Rightarrow> ptr \<Rightarrow> ptr \<Rightarrow> 'a tree \<Rightarrow> bool" where
  "is_tree h par p Leaf = (p = None)"
| "is_tree h par p (Br l a x c r) =
     (p = Some a \<and> a \<notin> addrs l \<and> a \<notin> addrs r \<and> addrs l \<inter> addrs r = {} \<and>
      (case h a of None \<Rightarrow> False
       | Some n \<Rightarrow> val n = x \<and> color n = c \<and> parent n = par \<and>
                  is_tree h (Some a) (left n) l \<and> is_tree h (Some a) (right n) r))"

text \<open>The tree object \<open>s\<close> holds the tree \<open>t\<close>: \<open>_root\<close> leads to \<open>t\<close> and the root's parent
  is \<open>nullptr\<close>.\<close>

definition holds :: "'a RedBlackTree \<Rightarrow> 'a tree \<Rightarrow> bool" where
  "holds s t = is_tree (heap s) None (root s) t"

text \<open>Reading the shape off the store, for at most \<open>k\<close> levels.\<close>

fun tree_of :: "nat \<Rightarrow> (addr \<Rightarrow> 'a Node option) \<Rightarrow> ptr \<Rightarrow> 'a tree option" where
  "tree_of 0 h p = None"
| "tree_of (Suc k) h p =
     (case p of None \<Rightarrow> Some Leaf
      | Some a \<Rightarrow>
         (case h a of None \<Rightarrow> None
          | Some n \<Rightarrow>
             (case tree_of k h (left n) of None \<Rightarrow> None
              | Some l \<Rightarrow>
                 (case tree_of k h (right n) of None \<Rightarrow> None
                  | Some r \<Rightarrow> Some (Br l a (val n) (color n) r)))))"

subsection \<open>The four invariants of the data model\<close>

definition root_black :: "'a tree \<Rightarrow> bool" where
  "root_black t = (case t of Leaf \<Rightarrow> True | Br l a x c r \<Rightarrow> c = BLACK)"

definition is_red :: "'a tree \<Rightarrow> bool" where
  "is_red t = (case t of Leaf \<Rightarrow> False | Br l a x c r \<Rightarrow> c = RED)"

fun no_red_red :: "'a tree \<Rightarrow> bool" where
  "no_red_red Leaf = True"
| "no_red_red (Br l a x c r) =
     ((c = RED \<longrightarrow> \<not> is_red l \<and> \<not> is_red r) \<and> no_red_red l \<and> no_red_red r)"

text \<open>The numbers of black nodes on the paths from the top of \<open>t\<close> to its absent-child
  positions.\<close>

fun black_counts :: "'a tree \<Rightarrow> nat set" where
  "black_counts Leaf = {0}"
| "black_counts (Br l a x c r) =
     (\<lambda>n. n + (if c = BLACK then 1 else 0)) ` (black_counts l \<union> black_counts r)"

definition black_balanced :: "'a tree \<Rightarrow> bool" where
  "black_balanced t = (\<exists>n. black_counts t = {n})"

definition ordered :: "'a::linorder tree \<Rightarrow> bool" where
  "ordered t = sorted_wrt (<) (inorder t)"

definition rb_invariants :: "'a::linorder tree \<Rightarrow> bool" where
  "rb_invariants t = (root_black t \<and> no_red_red t \<and> black_balanced t \<and> ordered t)"

subsection \<open>Sequences of public calls\<close>

text \<open>\<open>Insert x\<close> and \<open>Remove x\<close> are calls whose argument is an object of the caller.\<close>

datatype 'a call = Insert 'a | Remove 'a

fun run :: "nat \<Rightarrow> 'a::linorder RedBlackTree \<Rightarrow> 'a call list \<Rightarrow> error + 'a RedBlackTree" where
  "run k s [] = Inr s"
| "run k s (Insert x # cs) = seq (insert_pub k s x) (\<lambda>s. run k s cs)"
| "run k s (Remove x # cs) = seq (remove_pub k s (Const x)) (\<lambda>s. run k s cs)"

text \<open>The call sequence completes and leaves the tree \<open>t\<close> in the store.\<close>

definition result_holds :: "error + 'a RedBlackTree \<Rightarrow> 'a tree \<Rightarrow> bool" where
  "result_holds r t = (case r of Inl e \<Rightarrow> False | Inr s \<Rightarrow> holds s t)"

subsection \<open>The rotated tree\<close>

text \<open>
  What a rotation is to produce, on the shape: \<open>rotated_left x t\<close> lifts the right child of
  the node at address \<open>x\<close> into its place, \<open>rotated_right x t\<close> the left child.
  \<open>rotl_heap\<close> and \<open>rotr_heap\<close> are the stores the two rotations leave: the fields of \<open>x\<close>
  and of the lifted child \<open>y\<close>, the parent field of the subtree that changes sides, and the
  child link of the former parent of \<open>x\<close>.
\<close>

fun rotated_left :: "addr \<Rightarrow> 'a tree \<Rightarrow> 'a tree" where
  "rotated_left x Leaf = Leaf"
| "rotated_left x (Br l a v c r) =
     (if a = x then
        (case r of Leaf \<Rightarrow> Br l a v c r | Br rl b w d rr \<Rightarrow> Br (Br l a v c rl) b w d rr)
      else Br (rotated_left x l) a v c (rotated_left x r))"

definition rotl_heap ::
  "(addr \<Rightarrow> 'a Node option) \<Rightarrow> addr \<Rightarrow> 'a Node \<Rightarrow> addr \<Rightarrow> 'a Node \<Rightarrow> addr \<Rightarrow> 'a Node option" where
  "rotl_heap h x nx y ny =
     (\<lambda>a. if a = x then Some (nx\<lparr>right := left ny, parent := Some y\<rparr>)
          else if a = y then Some (ny\<lparr>left := Some x, parent := parent nx\<rparr>)
          else if Some a = left ny then map_option (\<lambda>n. n\<lparr>parent := Some x\<rparr>) (h a)
          else if Some a = parent nx then
            map_option (\<lambda>n. if left n = Some x then n\<lparr>left := Some y\<rparr>
                             else if right n = Some x then n\<lparr>right := Some y\<rparr> else n) (h a)
          else h a)"

fun rotated_right :: "addr \<Rightarrow> 'a tree \<Rightarrow> 'a tree" where
  "rotated_right x Leaf = Leaf"
| "rotated_right x (Br l a v c r) =
     (if a = x then
        (case l of Leaf \<Rightarrow> Br l a v c r | Br ll b w d lr \<Rightarrow> Br ll b w d (Br lr a v c r))
      else Br (rotated_right x l) a v c (rotated_right x r))"

definition rotr_heap ::
  "(addr \<Rightarrow> 'a Node option) \<Rightarrow> addr \<Rightarrow> 'a Node \<Rightarrow> addr \<Rightarrow> 'a Node \<Rightarrow> addr \<Rightarrow> 'a Node option" where
  "rotr_heap h x nx y ny =
     (\<lambda>a. if a = x then Some (nx\<lparr>left := right ny, parent := Some y\<rparr>)
          else if a = y then Some (ny\<lparr>right := Some x, parent := parent nx\<rparr>)
          else if Some a = right ny then map_option (\<lambda>n. n\<lparr>parent := Some x\<rparr>) (h a)
          else if Some a = parent nx then
            map_option (\<lambda>n. if right n = Some x then n\<lparr>right := Some y\<rparr>
                             else if left n = Some x then n\<lparr>left := Some y\<rparr> else n) (h a)
          else h a)"

subsection \<open>Copies\<close>

text \<open>
  \<open>same_content t t'\<close>: the two trees have the same shape and, position by position, the
  same values and colours; the addresses may differ. \<open>fresh_unused\<close>: no node lives at or
  above the next address \<open>new\<close> will hand out. \<open>copy_post\<close> collects what \<open>copy\<close> guarantees.
\<close>

fun same_content :: "'a tree \<Rightarrow> 'a tree \<Rightarrow> bool" where
  "same_content Leaf Leaf = True"
| "same_content (Br l a x c r) (Br l' a' x' c' r') =
     (x = x' \<and> c = c' \<and> same_content l l' \<and> same_content r r')"
| "same_content _ _ = False"

definition fresh_unused :: "'a RedBlackTree \<Rightarrow> bool" where
  "fresh_unused s = (\<forall>a. fresh s \<le> a \<longrightarrow> heap s a = None)"

definition copy_post :: "'a RedBlackTree \<Rightarrow> 'a tree \<Rightarrow> ptr \<Rightarrow> 'a RedBlackTree \<Rightarrow> bool" where
  "copy_post s t p' s' =
     (\<exists>t'. is_tree (heap s') None p' t' \<and> same_content t t' \<and>
           addrs t' \<subseteq> {fresh s..<fresh s'} \<and>
           (\<forall>a<fresh s. heap s' a = heap s a) \<and> fresh s \<le> fresh s' \<and>
           fresh_unused s' \<and> root s' = root s)"

subsection \<open>Stores that consist of one tree\<close>

text \<open>
  \<open>exact s t\<close>: the store holds the tree \<open>t\<close> and has no other live node. \<open>tree_with\<close> fixes
  the set of nodes and the in-order sequence of such a tree, \<open>tree_set\<close> the set of its
  values. \<open>recolored a d t\<close> is \<open>t\<close> with node \<open>a\<close> coloured \<open>d\<close>; \<open>hung_left a f v t\<close> and
  \<open>hung_right a f v t\<close> are \<open>t\<close> with a new red leaf \<open>f\<close> of value \<open>v\<close> as the left resp. right
  child of node \<open>a\<close>.
\<close>

fun recolored :: "addr \<Rightarrow> Color \<Rightarrow> 'a tree \<Rightarrow> 'a tree" where
  "recolored a d Leaf = Leaf"
| "recolored a d (Br l b x c r) =
     (if b = a then Br l b x d r else Br (recolored a d l) b x c (recolored a d r))"

definition exact :: "'a RedBlackTree \<Rightarrow> 'a tree \<Rightarrow> bool" where
  "exact s t = (holds s t \<and> dom (heap s) = addrs t)"

definition tree_with :: "addr set \<times> 'a list \<Rightarrow> 'a RedBlackTree \<Rightarrow> bool" where
  "tree_with xs s = (\<exists>t. exact s t \<and> addrs t = fst xs \<and> inorder t = snd xs)"

definition tree_set :: "'a set \<Rightarrow> 'a RedBlackTree \<Rightarrow> bool" where
  "tree_set X s = (\<exists>t. exact s t \<and> fresh_unused s \<and> set (inorder t) = X)"

fun hung_left :: "addr \<Rightarrow> addr \<Rightarrow> 'a \<Rightarrow> 'a tree \<Rightarrow> 'a tree" where
  "hung_left a f v Leaf = Leaf"
| "hung_left a f v (Br l b x c r) =
     (if b = a then Br (Br Leaf f v RED Leaf) b x c r
      else Br (hung_left a f v l) b x c (hung_left a f v r))"

fun hung_right :: "addr \<Rightarrow> addr \<Rightarrow> 'a \<Rightarrow> 'a tree \<Rightarrow> 'a tree" where
  "hung_right a f v Leaf = Leaf"
| "hung_right a f v (Br l b x c r) =
     (if b = a then Br l b x c (Br Leaf f v RED Leaf)
      else Br (hung_right a f v l) b x c (hung_right a f v r))"

section \<open>Evaluating the operations\<close>

lemmas node_ops =
  seq_def deref_def get_def put_def set_val_def set_color_def set_left_def set_right_def
  set_parent_def new_Node_def delete_def read_ref_def isLeft_def isRight_def isLeaf_def
  is_colored_def hasColorChild_def hasColorChildren_def sibling_def

lemmas block_defs =
  and_then_def recolor_rl_def recolor_lr_def hang_left_def hang_right_def attach_left_def
  attach_right_def insert_child_def
  insert_rotate_def insert_next_def remove_child_def recolor_pair_def rotate_niblings_def
  rotate_red_child_def swap_values_def unlink_leaf_def

text \<open>
  C2 (every public operation is total; in particular removing the sole value of a one-node
  tree completes normally). On the tree built by one \<open>insert(v)\<close> the call \<open>remove(v)\<close>
  reaches \<open>removeNode\<close> with the root, which is a leaf without a parent: \<open>isLeft()\<close> is
  false, and the \<open>else\<close> branch writes \<open>node->parent->right\<close> through the absent parent.
  This holds for every value and every recursion budget that lets the call get there.
\<close>

theorem remove_sole_value_null_deref:
  "run (Suc (Suc k)) RedBlackTree [Insert v, Remove v] = Inl NullDeref"
  by (simp add: insert_pub_def remove_pub_def RedBlackTree_def node_ops unlink_leaf_def)

text \<open>A pointer is the root of at most one tree, so a store that holds a tree violating
  an invariant holds no tree satisfying it.\<close>

lemma is_tree_unique: "is_tree h par p t \<Longrightarrow> is_tree h par p t' \<Longrightarrow> t = t'"
proof (induction t arbitrary: par p t')
  case Leaf
  then show ?case by (cases t') auto
next
  case (Br l a x c r)
  then show ?case by (cases t') (auto split: option.splits)
qed

lemma holds_unique: "holds s t \<Longrightarrow> holds s t' \<Longrightarrow> t = t'"
  unfolding holds_def by (rule is_tree_unique)

text \<open>
  C1 (after every public \<open>insert\<close> and \<open>remove\<close> of any call sequence on an initially
  empty tree, the four red-black invariants hold). Two call sequences complete and leave
  a tree that breaks an invariant.

  Inserting 0, 1, ..., 7 in ascending order: the eighth \<open>insert\<close> recolours node 5 below
  the red node 3, both right children, rotates left at the root and then continues with
  \<open>this->insert(node->left, value)\<close> (line 376), that is in the subtree of the smaller
  values; 7 is attached as the right child of 2 and the in-order sequence is
  0, 1, 2, 7, 3, 4, 5, 6.

  Inserting 0, 1, 2, 3 and removing 0: the rotations of lines 285--286 lift 3 to the root
  and leave its right subtree empty while its left subtree keeps the black nodes 1 and 2.
\<close>

theorem invariants_broken_after_calls:
  "result_holds (run 20 RedBlackTree (map Insert [0, 1, 2, 3, 4, 5, 6, 7::int]))
     (Br (Br (Br Leaf 0 0 BLACK Leaf) 1 1 RED (Br Leaf 2 2 BLACK (Br Leaf 7 7 RED Leaf)))
         3 3 BLACK
         (Br (Br Leaf 4 4 BLACK Leaf) 5 5 RED (Br Leaf 6 6 BLACK Leaf)))
   \<and> \<not> ordered
     (Br (Br (Br Leaf 0 0 BLACK Leaf) 1 1 RED (Br Leaf 2 2 BLACK (Br Leaf 7 (7::int) RED Leaf)))
         3 3 BLACK
         (Br (Br Leaf 4 4 BLACK Leaf) 5 5 RED (Br Leaf 6 6 BLACK Leaf)))
   \<and> result_holds (run 20 RedBlackTree [Insert 0, Insert 1, Insert 2, Insert 3, Remove (0::int)])
     (Br (Br Leaf 1 1 BLACK (Br Leaf 2 2 BLACK Leaf)) 3 3 BLACK Leaf)
   \<and> \<not> black_balanced (Br (Br Leaf 1 (1::int) BLACK (Br Leaf 2 2 BLACK Leaf)) 3 3 BLACK Leaf)"
proof -
  have "result_holds (run 20 RedBlackTree (map Insert [0, 1, 2, 3, 4, 5, 6, 7::int]))
     (Br (Br (Br Leaf 0 0 BLACK Leaf) 1 1 RED (Br Leaf 2 2 BLACK (Br Leaf 7 7 RED Leaf)))
         3 3 BLACK
         (Br (Br Leaf 4 4 BLACK Leaf) 5 5 RED (Br Leaf 6 6 BLACK Leaf)))"
    by code_simp
  moreover have "\<not> ordered
     (Br (Br (Br Leaf 0 0 BLACK Leaf) 1 1 RED (Br Leaf 2 2 BLACK (Br Leaf 7 (7::int) RED Leaf)))
         3 3 BLACK
         (Br (Br Leaf 4 4 BLACK Leaf) 5 5 RED (Br Leaf 6 6 BLACK Leaf)))"
    by (simp add: ordered_def)
  moreover have "result_holds
     (run 20 RedBlackTree [Insert 0, Insert 1, Insert 2, Insert 3, Remove (0::int)])
     (Br (Br Leaf 1 1 BLACK (Br Leaf 2 2 BLACK Leaf)) 3 3 BLACK Leaf)"
    by code_simp
  moreover have
    "\<not> black_balanced (Br (Br Leaf 1 (1::int) BLACK (Br Leaf 2 2 BLACK Leaf)) 3 3 BLACK Leaf)"
    by (auto simp: black_balanced_def)
  ultimately show ?thesis by blast
qed

text \<open>
  C9 (\<open>followsRules\<close> returns true exactly on the trees without a red node with a red
  child and with equal black-heights at every node). \<open>blackHeight\<close> follows left links
  only and \<open>followsRules\<close> compares the two counts at the root only. After inserting
  0, ..., 4 and removing the absent value 7 the root 0 has no left child and a red right
  child 1 without a left child, so both counts are 1 and the validator answers true, while
  the paths through the black node 3 below 1 carry one more black node.
\<close>

theorem followsRules_accepts_unbalanced:
  "result_holds
     (run 20 RedBlackTree [Insert 0, Insert 1, Insert 2, Insert 3, Insert 4, Remove (7::int)])
     (Br Leaf 0 0 BLACK
        (Br Leaf 1 1 RED (Br (Br Leaf 2 2 RED Leaf) 3 3 BLACK (Br Leaf 4 4 RED Leaf))))
   \<and> seq (run 20 RedBlackTree [Insert 0, Insert 1, Insert 2, Insert 3, Insert 4, Remove (7::int)])
        (followsRules 20) = Inr True
   \<and> \<not> black_balanced
     (Br Leaf 0 (0::int) BLACK
        (Br Leaf 1 1 RED (Br (Br Leaf 2 2 RED Leaf) 3 3 BLACK (Br Leaf 4 4 RED Leaf))))"
proof -
  have "result_holds
     (run 20 RedBlackTree [Insert 0, Insert 1, Insert 2, Insert 3, Insert 4, Remove (7::int)])
     (Br Leaf 0 0 BLACK
        (Br Leaf 1 1 RED (Br (Br Leaf 2 2 RED Leaf) 3 3 BLACK (Br Leaf 4 4 RED Leaf))))"
    by code_simp
  moreover have
    "seq (run 20 RedBlackTree [Insert 0, Insert 1, Insert 2, Insert 3, Insert 4, Remove (7::int)])
        (followsRules 20) = Inr True"
    by code_simp
  moreover have "\<not> black_balanced
     (Br Leaf 0 (0::int) BLACK
        (Br Leaf 1 1 RED (Br (Br Leaf 2 2 RED Leaf) 3 3 BLACK (Br Leaf 4 4 RED Leaf))))"
    by (auto simp: black_balanced_def)
  ultimately show ?thesis by blast
qed

section \<open>What every completed call preserves\<close>

lemma seqE: "seq m f = Inr r \<Longrightarrow> (\<And>x. m = Inr x \<Longrightarrow> f x = Inr r \<Longrightarrow> P) \<Longrightarrow> P"
  by (cases m) (auto simp: seq_def)

lemma seq_Inr [simp]: "seq (Inr x) f = f x" by (simp add: seq_def)
lemma seq_Inl [simp]: "seq (Inl e) f = Inl e" by (simp add: seq_def)

lemma put_root: "put s p f = Inr s' \<Longrightarrow> root s' = root s"
  by (auto simp: put_def split: option.splits)

lemma put_not_null: "put s p f = Inr s' \<Longrightarrow> p \<noteq> None"
  by (auto simp: put_def split: option.splits)

lemma set_root:
  "set_color s p c = Inr s' \<Longrightarrow> root s' = root s"
  "set_left s p q = Inr s' \<Longrightarrow> root s' = root s"
  "set_right s p q = Inr s' \<Longrightarrow> root s' = root s"
  "set_parent s p q = Inr s' \<Longrightarrow> root s' = root s"
  "set_val s p x = Inr s' \<Longrightarrow> root s' = root s"
  "delete s p = Inr s' \<Longrightarrow> root s' = root s"
  by (auto simp: set_color_def set_left_def set_right_def set_parent_def set_val_def delete_def
      dest: put_root split: option.splits)

lemma get_not_null: "get s p f = Inr x \<Longrightarrow> p \<noteq> None"
  by (auto simp: get_def deref_def seq_def split: option.splits)

lemma rotateLeft_not_null: "rotateLeft s p = Inr (q, s') \<Longrightarrow> q \<noteq> None"
  unfolding rotateLeft_def
  by (erule seqE)+ (auto dest: get_not_null)

lemma rotateRight_not_null: "rotateRight s p = Inr (q, s') \<Longrightarrow> q \<noteq> None"
  unfolding rotateRight_def
  by (erule seqE)+ (auto dest: get_not_null)

lemma rotateLeft_nonempty: 
  assumes "rotateLeft s p = Inr (q, s')" shows "is_empty s' \<longrightarrow> is_empty s"
proof -
  have "q \<noteq> None" using assms by (rule rotateLeft_not_null)
  with assms show ?thesis
  unfolding rotateLeft_def is_empty_def
  by (auto elim!: seqE split: if_splits dest!: set_root)
qed

lemma rotateRight_nonempty: 
  assumes "rotateRight s p = Inr (q, s')" shows "is_empty s' \<longrightarrow> is_empty s"
proof -
  have "q \<noteq> None" using assms by (rule rotateRight_not_null)
  with assms show ?thesis
  unfolding rotateRight_def is_empty_def
  by (auto elim!: seqE split: if_splits dest!: set_root)
qed

lemma set_nonempty:
  "set_color s p c = Inr s' \<Longrightarrow> is_empty s' \<longrightarrow> is_empty s"
  "set_left s p q = Inr s' \<Longrightarrow> is_empty s' \<longrightarrow> is_empty s"
  "set_right s p q = Inr s' \<Longrightarrow> is_empty s' \<longrightarrow> is_empty s"
  "set_parent s p q = Inr s' \<Longrightarrow> is_empty s' \<longrightarrow> is_empty s"
  "set_val s p x = Inr s' \<Longrightarrow> is_empty s' \<longrightarrow> is_empty s"
  "delete s p = Inr s' \<Longrightarrow> is_empty s' \<longrightarrow> is_empty s"
  by (auto simp: is_empty_def dest: set_root)

lemmas ne = set_nonempty rotateLeft_nonempty rotateRight_nonempty

lemma recolor_pair_nonempty: "recolor_pair s p q = Inr s' \<Longrightarrow> is_empty s' \<longrightarrow> is_empty s"
  unfolding recolor_pair_def
  by (auto elim!: seqE split: if_splits dest!: ne)

lemma rotate_niblings_nonempty: "rotate_niblings s p q = Inr s' \<Longrightarrow> is_empty s' \<longrightarrow> is_empty s"
  unfolding rotate_niblings_def
  by (auto elim!: seqE split: if_splits dest!: ne)

lemma rotate_red_child_nonempty: "rotate_red_child s p = Inr s' \<Longrightarrow> is_empty s' \<longrightarrow> is_empty s"
  unfolding rotate_red_child_def
  by (auto elim!: seqE split: if_splits dest!: ne)

lemma swap_values_nonempty: "swap_values s p q = Inr s' \<Longrightarrow> is_empty s' \<longrightarrow> is_empty s"
  unfolding swap_values_def
  by (auto elim!: seqE split: if_splits dest!: ne)

lemma unlink_leaf_nonempty: "unlink_leaf s p = Inr s' \<Longrightarrow> is_empty s' \<longrightarrow> is_empty s"
  unfolding unlink_leaf_def
  by (auto elim!: seqE split: if_splits dest!: ne)

lemmas ne2 = recolor_pair_nonempty rotate_niblings_nonempty rotate_red_child_nonempty
  swap_values_nonempty unlink_leaf_nonempty

lemma remove_nonempty:
  "(\<forall>(s::'a::linorder RedBlackTree) p v s'.
      remove_priv k s p v = Inr s' \<longrightarrow> is_empty s' \<longrightarrow> is_empty s) \<and>
   (\<forall>(s::'a RedBlackTree) p s'. removeNode k s p = Inr s' \<longrightarrow> is_empty s' \<longrightarrow> is_empty s)"
proof (induction k)
  case 0 show ?case by simp
next
  case (Suc k)
  note IH1 = Suc.IH[THEN conjunct1, THEN spec, THEN spec, THEN spec, THEN spec, THEN mp]
  note IH2 = Suc.IH[THEN conjunct2, THEN spec, THEN spec, THEN spec, THEN mp]
  show ?case
    apply (simp only: remove_priv.simps removeNode.simps Let_def)
    apply (intro conjI allI impI)
    apply (auto elim!: seqE split: if_splits dest!: ne2 IH1 IH2)
    done
qed

lemma remove_priv_nonempty:
  "remove_priv k s p v = Inr s' \<Longrightarrow> is_empty s' \<longrightarrow> is_empty s"
  by (rule remove_nonempty[THEN conjunct1, THEN spec, THEN spec, THEN spec, THEN spec, THEN mp])

lemma remove_pub_nonempty: "remove_pub k s v = Inr s' \<Longrightarrow> is_empty s' = is_empty s"
  unfolding remove_pub_def
  by (auto elim!: seqE split: if_splits dest!: ne remove_priv_nonempty simp: is_empty_def)

lemma insert_pub_nonempty: "insert_pub k s v = Inr s' \<Longrightarrow> \<not> is_empty s'"
  unfolding insert_pub_def set_color_def is_empty_def
  by (erule seqE) (auto simp: put_def split: option.splits)

lemma run_append: "run k s (cs @ ds) = seq (run k s cs) (\<lambda>s. run k s ds)"
proof (induction cs arbitrary: s)
  case Nil show ?case by simp
next
  case (Cons c cs)
  show ?case
  proof (cases c)
    case (Insert x)
    then show ?thesis using Cons by (cases "insert_pub k s x") simp_all
  next
    case (Remove x)
    then show ?thesis using Cons by (cases "remove_pub k s (Const x)") simp_all
  qed
qed

lemma run_removes_nonempty: "run k s (map Remove ys) = Inr s' \<Longrightarrow> is_empty s' = is_empty s"
proof (induction ys arbitrary: s)
  case Nil then show ?case by simp
next
  case (Cons y ys)
  then show ?case by (auto elim!: seqE dest: remove_pub_nonempty)
qed

lemma run_inserts_nonempty: "xs \<noteq> [] \<Longrightarrow> run k s (map Insert xs) = Inr s' \<Longrightarrow> \<not> is_empty s'"
proof (induction xs arbitrary: s)
  case Nil then show ?case by simp
next
  case (Cons x xs)
  from Cons.prems(2) obtain s1 where 1: "insert_pub k s x = Inr s1" and 2: "run k s1 (map Insert xs) = Inr s'"
    by (auto elim!: seqE)
  show ?case
  proof (cases "xs = []")
    case True with 1 2 show ?thesis by (auto dest: insert_pub_nonempty)
  next
    case False with Cons.IH 2 show ?thesis by blast
  qed
qed

text \<open>
  C3 (inserting the elements of a finite set \<open>S\<close> into an empty tree and removing them all
  yields an empty tree). No path of \<open>remove\<close> or \<open>removeNode\<close> assigns \<open>nullptr\<close> to
  \<open>_root\<close>: the rotations store the lifted child there and \<open>removeNode\<close> only clears a
  child link of the parent. Hence for every non-empty list of inserted values and every
  list of removals, if all calls complete then \<open>is_empty()\<close> is false afterwards; the last
  removal of the round trip is the call of C2, which does not complete.
\<close>

theorem remove_never_empties:
  "xs \<noteq> [] \<Longrightarrow> run k RedBlackTree (map Insert xs @ map Remove ys) = Inr s' \<Longrightarrow> \<not> is_empty s'"
  by (auto simp: run_append elim!: seqE dest: run_inserts_nonempty run_removes_nonempty)

theorem remove_never_empties_witness:
  "case run 20 RedBlackTree (map Insert [0, 1::int] @ map Remove [1]) of
     Inl e \<Rightarrow> False | Inr s' \<Rightarrow> \<not> is_empty s'"
proof -
  have c: "case run 20 RedBlackTree (map Insert [0, 1::int] @ map Remove [1]) of
     Inl e \<Rightarrow> False | Inr s' \<Rightarrow> True"
    by code_simp
  show ?thesis
  proof (cases "run 20 RedBlackTree (map Insert [0, 1::int] @ map Remove [1])")
    case (Inl e)
    with c show ?thesis by simp
  next
    case (Inr s')
    have "[0, 1::int] \<noteq> []" by simp
    from remove_never_empties[OF this Inr] Inr show ?thesis by simp
  qed
qed

section \<open>Minimum and maximum\<close>

lemma get_Some [simp]: "heap s a = Some n \<Longrightarrow> get s (Some a) f = Inr (f n)"
  by (simp add: get_def deref_def)

lemma is_tree_Leaf_iff: "is_tree h par p t \<Longrightarrow> (t = Leaf) = (p = None)"
  by (cases t) auto

lemma inorder_Nil_iff [simp]: "(inorder t = []) = (t = Leaf)"
  by (cases t) auto

lemma find_min_priv_tree:
  "is_tree (heap s) par p t \<Longrightarrow> t \<noteq> Leaf \<Longrightarrow> height t \<le> k \<Longrightarrow>
   \<exists>a n. find_min_priv k s p = Inr (Some a) \<and> heap s a = Some n \<and> val n = hd (inorder t)"
proof (induction t arbitrary: par p k)
  case Leaf
  then show ?case by simp
next
  case (Br l a x c r)
  from Br.prems obtain n where n: "p = Some a" "heap s a = Some n" "val n = x"
    "is_tree (heap s) (Some a) (left n) l"
    by (auto split: option.splits)
  from Br.prems(3) obtain k' where k: "k = Suc k'" "height l \<le> k'"
    by (cases k) auto
  show ?case
  proof (cases "l = Leaf")
    case True
    with n k show ?thesis by (auto dest: is_tree_Leaf_iff)
  next
    case False
    with n(4) have "left n \<noteq> None" by (auto dest: is_tree_Leaf_iff)
    moreover from Br.IH(1)[OF n(4) False k(2)] obtain b m where
      "find_min_priv k' s (left n) = Inr (Some b)" "heap s b = Some m" "val m = hd (inorder l)"
      by blast
    ultimately show ?thesis using n k False by auto
  qed
qed

lemma find_max_loop_tree:
  "is_tree (heap s) par p t \<Longrightarrow> t \<noteq> Leaf \<Longrightarrow> height t \<le> k \<Longrightarrow>
   \<exists>a n. find_max_loop k s p = Inr (Some a) \<and> heap s a = Some n \<and> val n = last (inorder t)"
proof (induction t arbitrary: par p k)
  case Leaf
  then show ?case by simp
next
  case (Br l a x c r)
  from Br.prems obtain n where n: "p = Some a" "heap s a = Some n" "val n = x"
    "is_tree (heap s) (Some a) (right n) r"
    by (auto split: option.splits)
  from Br.prems(3) obtain k' where k: "k = Suc k'" "height r \<le> k'"
    by (cases k) auto
  show ?case
  proof (cases "r = Leaf")
    case True
    with n k show ?thesis by (auto dest: is_tree_Leaf_iff)
  next
    case False
    with n(4) have "right n \<noteq> None" by (auto dest: is_tree_Leaf_iff)
    moreover from Br.IH(2)[OF n(4) False k(2)] obtain b m where
      "find_max_loop k' s (right n) = Inr (Some b)" "heap s b = Some m" "val m = last (inorder r)"
      by blast
    ultimately show ?thesis using n k False by auto
  qed
qed

lemma sorted_hd_Min:
  assumes "sorted_wrt (<) xs" and "xs \<noteq> []"
  shows "hd xs = Min (set (xs::'a::linorder list))"
proof -
  obtain a ys where xs: "xs = a # ys" using assms(2) by (cases xs) auto
  with assms(1) have "\<forall>y\<in>set ys. a < y" by simp
  then have "Min (set xs) = a" unfolding xs by (intro Min_eqI) (auto intro: less_imp_le)
  then show ?thesis by (simp add: xs)
qed

lemma sorted_last_Max:
  "sorted_wrt (<) xs \<Longrightarrow> xs \<noteq> [] \<Longrightarrow> last xs = Max (set (xs::'a::linorder list))"
proof (induction xs)
  case Nil then show ?case by simp
next
  case (Cons x xs)
  show ?case
  proof (cases "xs = []")
    case True then show ?thesis by simp
  next
    case False
    with Cons have "last xs = Max (set xs)" by simp
    moreover from Cons.prems False have "x \<le> Max (set xs)"
      by (cases xs) (auto simp: Max_ge_iff intro: less_imp_le)
    ultimately show ?thesis using False by (simp add: max_absorb2)
  qed
qed



section \<open>Rotations on a tree held by the store\<close>

lemma put_Some [simp]:
  "heap s a = Some n \<Longrightarrow> put s (Some a) f = Inr (s\<lparr>heap := (heap s)(a \<mapsto> f n)\<rparr>)"
  by (simp add: put_def)

lemmas set_defs = set_val_def set_color_def set_left_def set_right_def set_parent_def

lemma isLeft_Some:
  "heap s a = Some n \<Longrightarrow> parent n = Some g \<Longrightarrow> heap s g = Some ng \<Longrightarrow>
   isLeft s (Some a) = Inr (left ng = Some a)"
  by (auto simp: isLeft_def)

lemma isRight_Some:
  "heap s a = Some n \<Longrightarrow> parent n = Some g \<Longrightarrow> heap s g = Some ng \<Longrightarrow>
   isRight s (Some a) = Inr (right ng = Some a)"
  by (auto simp: isRight_def)

lemma isLeft_root: "heap s a = Some n \<Longrightarrow> parent n = None \<Longrightarrow> isLeft s (Some a) = Inr False"
  by (auto simp: isLeft_def)

lemma isRight_root: "heap s a = Some n \<Longrightarrow> parent n = None \<Longrightarrow> isRight s (Some a) = Inr False"
  by (auto simp: isRight_def)

lemma rotateLeft_effect:
  assumes "heap s x = Some nx" "right nx = Some y" "heap s y = Some ny" "x \<noteq> y"
    and "\<forall>b. left ny = Some b \<longrightarrow> b \<noteq> x \<and> b \<noteq> y \<and> heap s b \<noteq> None"
    and "\<forall>g. parent nx = Some g \<longrightarrow> g \<noteq> x \<and> g \<noteq> y \<and> left ny \<noteq> Some g \<and> heap s g \<noteq> None"
  shows "rotateLeft s (Some x) =
     Inr (Some y, s\<lparr>heap := rotl_heap (heap s) x nx y ny,
                     root := (if parent nx = None then Some y else root s)\<rparr>)"
proof (cases "left ny")
  case None
  show ?thesis
  proof (cases "parent nx")
    case pn: None
    with None assms show ?thesis
      by (auto simp: rotateLeft_def set_defs rotl_heap_def fun_eq_iff)
  next
    case (Some g)
    with assms(6) obtain ng where "heap s g = Some ng" "g \<noteq> x" "g \<noteq> y" by auto
    with None Some assms show ?thesis
      by (auto simp: rotateLeft_def set_defs rotl_heap_def fun_eq_iff isLeft_Some isRight_Some)
  qed
next
  case b: (Some b)
  with assms(5) obtain nb where nb: "heap s b = Some nb" "b \<noteq> x" "b \<noteq> y" by auto
  show ?thesis
  proof (cases "parent nx")
    case pn: None
    with b nb assms show ?thesis
      by (auto simp: rotateLeft_def set_defs rotl_heap_def fun_eq_iff)
  next
    case (Some g)
    with assms(6) b obtain ng where "heap s g = Some ng" "g \<noteq> x" "g \<noteq> y" "g \<noteq> b" by auto
    with b nb Some assms show ?thesis
      by (auto simp: rotateLeft_def set_defs rotl_heap_def fun_eq_iff isLeft_Some isRight_Some)
  qed
qed

lemma is_tree_frame:
  "is_tree h par p t \<Longrightarrow> (\<forall>a\<in>addrs t. h' a = h a) \<Longrightarrow> is_tree h' par p t"
proof (induction t arbitrary: par p)
  case Leaf
  then show ?case by simp
next
  case (Br l a x c r)
  then show ?case by (auto split: option.splits)
qed

lemma is_tree_reparent:
  assumes "is_tree h par p t"
    and "\<forall>a\<in>addrs t. h' a = (if p = Some a then map_option (\<lambda>n. n\<lparr>parent := par'\<rparr>) (h a) else h a)"
  shows "is_tree h' par' p t"
proof (cases t)
  case Leaf
  with assms show ?thesis by simp
next
  case (Br l a x c r)
  with assms(1) obtain n where n: "p = Some a" "h a = Some n" "a \<notin> addrs l" "a \<notin> addrs r"
    "addrs l \<inter> addrs r = {}" "val n = x" "color n = c"
    "is_tree h (Some a) (left n) l" "is_tree h (Some a) (right n) r"
    by (auto split: option.splits)
  from assms(2) Br n have "\<forall>b\<in>addrs l. h' b = h b" "\<forall>b\<in>addrs r. h' b = h b"
    by auto
  with n have "is_tree h' (Some a) (left n) l" "is_tree h' (Some a) (right n) r"
    by (auto intro: is_tree_frame)
  moreover from assms(2) Br n have "h' a = Some (n\<lparr>parent := par'\<rparr>)" by simp
  ultimately show ?thesis using Br n by simp
qed

lemma is_tree_top: "is_tree h par (Some a) t \<Longrightarrow> a \<in> addrs t"
  by (cases t) auto

lemma is_tree_node:
  "is_tree h par p t \<Longrightarrow> a \<in> addrs t \<Longrightarrow>
   \<exists>n. h a = Some n \<and> (\<forall>b. left n = Some b \<longrightarrow> b \<in> addrs t) \<and>
       (\<forall>b. right n = Some b \<longrightarrow> b \<in> addrs t) \<and>
       (if p = Some a then parent n = par else \<exists>g\<in>addrs t. parent n = Some g)"
proof (induction t arbitrary: par p)
  case Leaf
  then show ?case by simp
next
  case (Br l a0 x c r)
  from Br.prems(1) obtain n where n: "p = Some a0" "h a0 = Some n" "a0 \<notin> addrs l" "a0 \<notin> addrs r"
    "parent n = par" "is_tree h (Some a0) (left n) l" "is_tree h (Some a0) (right n) r"
    by (auto split: option.splits)
  consider "a = a0" | "a \<in> addrs l" | "a \<in> addrs r" using Br.prems(2) by auto
  then show ?case
  proof cases
    case 1
    with n show ?thesis by (auto dest: is_tree_top)
  next
    case 2
    from Br.IH(1)[OF n(6) 2] n 2 show ?thesis by (auto split: if_splits)
  next
    case 3
    from Br.IH(2)[OF n(7) 3] n 3 show ?thesis by (auto split: if_splits)
  qed
qed

lemma addrs_rotated_left [simp]: "addrs (rotated_left x t) = addrs t"
  by (induction t) (auto split: tree.splits)

lemma rotated_left_id: "x \<notin> addrs t \<Longrightarrow> rotated_left x t = t"
  by (induction t) auto

lemma inorder_rotated_left [simp]: "inorder (rotated_left x t) = inorder t"
  by (induction t) (auto split: tree.splits)

lemma nodes_rotated_left [simp]: "nodes (rotated_left x t) = nodes t"
  by (induction t) (auto split: tree.splits)

lemma rotl_pre:
  assumes "is_tree h par p t" "x \<in> addrs t" "h x = Some nx" "right nx = Some y"
    and "\<forall>g. par = Some g \<longrightarrow> g \<notin> addrs t \<and> h g \<noteq> None"
  shows "\<exists>ny. h y = Some ny \<and> x \<noteq> y \<and>
     (\<forall>b. left ny = Some b \<longrightarrow> b \<noteq> x \<and> b \<noteq> y \<and> h b \<noteq> None) \<and>
     (\<forall>g. parent nx = Some g \<longrightarrow> g \<noteq> x \<and> g \<noteq> y \<and> left ny \<noteq> Some g \<and> h g \<noteq> None)"
  using assms
proof (induction t arbitrary: par p)
  case Leaf
  then show ?case by simp
next
  case (Br l a v c r)
  from Br.prems(1) obtain n where n: "p = Some a" "h a = Some n" "a \<notin> addrs l" "a \<notin> addrs r"
    "addrs l \<inter> addrs r = {}" "parent n = par"
    "is_tree h (Some a) (left n) l" "is_tree h (Some a) (right n) r"
    by (auto split: option.splits)
  consider "x = a" | "x \<in> addrs l" | "x \<in> addrs r" using Br.prems(2) by auto
  then show ?case
  proof cases
    case 1
    with n Br.prems have nx: "nx = n" "right n = Some y" by auto
    with n(8) obtain rl w d rr ny where r: "r = Br rl y w d rr" "h y = Some ny"
      "y \<notin> addrs rl" "is_tree h (Some y) (left ny) rl"
      by (cases r) (auto split: option.splits)
    have "\<forall>b. left ny = Some b \<longrightarrow> b \<in> addrs rl \<and> h b \<noteq> None"
      using r(4) is_tree_node[OF r(4)] by (fastforce dest: is_tree_top)
    with 1 n nx r Br.prems(5) show ?thesis by auto
  next
    case 2
    have "\<forall>g. Some a = Some g \<longrightarrow> g \<notin> addrs l \<and> h g \<noteq> None" using n by auto
    from Br.IH(1)[OF n(7) 2 Br.prems(3,4) this] show ?thesis .
  next
    case 3
    have "\<forall>g. Some a = Some g \<longrightarrow> g \<notin> addrs r \<and> h g \<noteq> None" using n by auto
    from Br.IH(2)[OF n(8) 3 Br.prems(3,4) this] show ?thesis .
  qed
qed

lemma rotl_is_tree:
  assumes "is_tree h par p t" "x \<in> addrs t" "h x = Some nx" "right nx = Some y" "h y = Some ny"
    and "\<forall>g. par = Some g \<longrightarrow> g \<notin> addrs t"
  shows "is_tree (rotl_heap h x nx y ny) par (if p = Some x then Some y else p) (rotated_left x t)"
  using assms(1,2,6)
proof (induction t arbitrary: par p)
  case Leaf
  then show ?case by simp
next
  case (Br l a v c r)
  let ?h = "rotl_heap h x nx y ny"
  from Br.prems(1) obtain n where n: "p = Some a" "h a = Some n" "a \<notin> addrs l" "a \<notin> addrs r"
    "addrs l \<inter> addrs r = {}" "parent n = par" "val n = v" "color n = c"
    "is_tree h (Some a) (left n) l" "is_tree h (Some a) (right n) r"
    by (auto split: option.splits)
  have par: "\<forall>g. par = Some g \<longrightarrow> g \<noteq> a \<and> g \<notin> addrs l \<and> g \<notin> addrs r"
    using Br.prems(3) by auto
  consider "x = a" | "x \<noteq> a" "x \<in> addrs l" | "x \<noteq> a" "x \<in> addrs r" using Br.prems(2) by auto
  then show ?case
  proof cases
    case 1
    with n assms have nx: "nx = n" "right n = Some y" by auto
    with n(10) assms(5) obtain rl w d rr where r: "r = Br rl y w d rr"
      "y \<notin> addrs rl" "y \<notin> addrs rr" "addrs rl \<inter> addrs rr = {}" "val ny = w" "color ny = d"
      "parent ny = Some a" "is_tree h (Some y) (left ny) rl" "is_tree h (Some y) (right ny) rr"
      by (cases r) (auto split: option.splits)
    have lrl: "\<forall>b. Some b = left ny \<longrightarrow> b \<in> addrs rl"
      using r(8) by (auto dest: is_tree_top dest!: sym[of "Some _" "left ny"])
    have "\<forall>b\<in>addrs l. ?h b = h b"
      using 1 n r nx lrl par by (auto simp: rotl_heap_def)
    with n(9) have A1: "is_tree ?h (Some a) (left n) l" by (rule is_tree_frame)
    have "\<forall>b\<in>addrs rl. ?h b =
        (if left ny = Some b then map_option (\<lambda>n. n\<lparr>parent := Some a\<rparr>) (h b) else h b)"
      using 1 n r nx par by (auto simp: rotl_heap_def eq_commute[of "Some _" "left ny"])
    with r(8) have A2: "is_tree ?h (Some a) (left ny) rl" by (rule is_tree_reparent)
    have "\<forall>b\<in>addrs rr. ?h b = h b"
      using 1 n r nx lrl par by (auto simp: rotl_heap_def)
    with r(9) have A3: "is_tree ?h (Some y) (right ny) rr" by (rule is_tree_frame)
    have hx: "?h a = Some (n\<lparr>right := left ny, parent := Some y\<rparr>)"
      using 1 nx by (simp add: rotl_heap_def)
    have hy: "?h y = Some (ny\<lparr>left := Some a, parent := par\<rparr>)"
      using 1 nx n r by (auto simp: rotl_heap_def)
    from A1 A2 A3 hx hy 1 n r show ?thesis by auto
  next
    case 2
    from is_tree_node[OF n(9) 2(2)] assms(3,4) have
      y: "y \<in> addrs l" and px: "if left n = Some x then parent nx = Some a
                                  else \<exists>g\<in>addrs l. parent nx = Some g"
      by auto
    from is_tree_node[OF n(9) y] assms(5) have ly: "\<forall>b. Some b = left ny \<longrightarrow> b \<in> addrs l"
      by (auto dest!: sym[of "Some _" "left ny"])
    have "\<forall>g. Some a = Some g \<longrightarrow> g \<notin> addrs l" using n by simp
    from Br.IH(1)[OF n(9) 2(2) this]
    have L: "is_tree ?h (Some a) (if left n = Some x then Some y else left n) (rotated_left x l)" .
    have "\<forall>b\<in>addrs r. ?h b = h b"
      using 2 n y ly px by (auto simp: rotl_heap_def split: if_splits)
    with n(10) have R: "is_tree ?h (Some a) (right n) r" by (rule is_tree_frame)
    have xr: "rotated_left x r = r" using 2 n by (auto intro: rotated_left_id)
    have ha: "?h a = Some (if left n = Some x then n\<lparr>left := Some y\<rparr> else n)"
      using 2 n y ly px by (auto simp: rotl_heap_def split: if_splits)
    from L R ha xr 2 n show ?thesis by (auto split: if_splits)
  next
    case 3
    from is_tree_node[OF n(10) 3(2)] assms(3,4) have
      y: "y \<in> addrs r" and px: "if right n = Some x then parent nx = Some a
                                  else \<exists>g\<in>addrs r. parent nx = Some g"
      by auto
    from is_tree_node[OF n(10) y] assms(5) have ly: "\<forall>b. Some b = left ny \<longrightarrow> b \<in> addrs r"
      by (auto dest!: sym[of "Some _" "left ny"])
    have lx: "left n \<noteq> Some x" using is_tree_top[of h "Some a" x l] n(9) 3 n(5) by auto
    have "\<forall>g. Some a = Some g \<longrightarrow> g \<notin> addrs r" using n by simp
    from Br.IH(2)[OF n(10) 3(2) this]
    have R: "is_tree ?h (Some a) (if right n = Some x then Some y else right n) (rotated_left x r)" .
    have "\<forall>b\<in>addrs l. ?h b = h b"
      using 3 n y ly px by (auto simp: rotl_heap_def split: if_splits)
    with n(9) have L: "is_tree ?h (Some a) (left n) l" by (rule is_tree_frame)
    have xl: "rotated_left x l = l" using 3 n by (auto intro: rotated_left_id)
    have ha: "?h a = Some (if right n = Some x then n\<lparr>right := Some y\<rparr> else n)"
      using 3 n y ly px lx by (auto simp: rotl_heap_def split: if_splits)
    from L R ha xl 3 n show ?thesis by (auto split: if_splits)
  qed
qed

lemma dom_rotl_heap:
  "h x = Some nx \<Longrightarrow> h y = Some ny \<Longrightarrow> dom (rotl_heap h x nx y ny) = dom h"
  by (auto simp: rotl_heap_def dom_def split: if_splits)

lemma rotateLeft_holds:
  assumes "holds s t" "x \<in> addrs t" "heap s x = Some nx" "right nx = Some y"
  shows "\<exists>s'. rotateLeft s (Some x) = Inr (Some y, s') \<and> holds s' (rotated_left x t) \<and>
     dom (heap s') = dom (heap s) \<and> fresh s' = fresh s"
proof -
  from assms(1) have tree: "is_tree (heap s) None (root s) t" by (simp add: holds_def)
  have "\<forall>g. (None::ptr) = Some g \<longrightarrow> g \<notin> addrs t \<and> heap s g \<noteq> None" by simp
  from rotl_pre[OF tree assms(2,3,4) this] obtain ny where ny: "heap s y = Some ny" "x \<noteq> y"
    "\<forall>b. left ny = Some b \<longrightarrow> b \<noteq> x \<and> b \<noteq> y \<and> heap s b \<noteq> None"
    "\<forall>g. parent nx = Some g \<longrightarrow> g \<noteq> x \<and> g \<noteq> y \<and> left ny \<noteq> Some g \<and> heap s g \<noteq> None"
    by blast
  let ?s = "s\<lparr>heap := rotl_heap (heap s) x nx y ny,
              root := (if parent nx = None then Some y else root s)\<rparr>"
  have run: "rotateLeft s (Some x) = Inr (Some y, ?s)"
    using assms(3,4) ny by (rule rotateLeft_effect)
  have "\<forall>g. (None::ptr) = Some g \<longrightarrow> g \<notin> addrs t" by simp
  from rotl_is_tree[OF tree assms(2,3,4) ny(1) this]
  have t': "is_tree (rotl_heap (heap s) x nx y ny) None
              (if root s = Some x then Some y else root s) (rotated_left x t)" .
  from is_tree_node[OF tree assms(2)] assms(3)
  have "parent nx = None \<longleftrightarrow> root s = Some x" by (auto split: if_splits)
  with t' have "holds ?s (rotated_left x t)" by (simp add: holds_def)
  with run dom_rotl_heap[OF assms(3) ny(1)] show ?thesis by simp
qed

lemma rotateRight_effect:
  assumes "heap s x = Some nx" "left nx = Some y" "heap s y = Some ny" "x \<noteq> y"
    and "\<forall>b. right ny = Some b \<longrightarrow> b \<noteq> x \<and> b \<noteq> y \<and> heap s b \<noteq> None"
    and "\<forall>g. parent nx = Some g \<longrightarrow> g \<noteq> x \<and> g \<noteq> y \<and> right ny \<noteq> Some g \<and> heap s g \<noteq> None"
  shows "rotateRight s (Some x) =
     Inr (Some y, s\<lparr>heap := rotr_heap (heap s) x nx y ny,
                     root := (if parent nx = None then Some y else root s)\<rparr>)"
proof (cases "right ny")
  case None
  show ?thesis
  proof (cases "parent nx")
    case pn: None
    with None assms show ?thesis
      by (auto simp: rotateRight_def set_defs rotr_heap_def fun_eq_iff)
  next
    case (Some g)
    with assms(6) obtain ng where "heap s g = Some ng" "g \<noteq> x" "g \<noteq> y" by auto
    with None Some assms show ?thesis
      by (auto simp: rotateRight_def set_defs rotr_heap_def fun_eq_iff isLeft_Some isRight_Some)
  qed
next
  case b: (Some b)
  with assms(5) obtain nb where nb: "heap s b = Some nb" "b \<noteq> x" "b \<noteq> y" by auto
  show ?thesis
  proof (cases "parent nx")
    case pn: None
    with b nb assms show ?thesis
      by (auto simp: rotateRight_def set_defs rotr_heap_def fun_eq_iff)
  next
    case (Some g)
    with assms(6) b obtain ng where "heap s g = Some ng" "g \<noteq> x" "g \<noteq> y" "g \<noteq> b" by auto
    with b nb Some assms show ?thesis
      by (auto simp: rotateRight_def set_defs rotr_heap_def fun_eq_iff isLeft_Some isRight_Some)
  qed
qed

lemma addrs_rotated_right [simp]: "addrs (rotated_right x t) = addrs t"
  by (induction t) (auto split: tree.splits)

lemma rotated_right_id: "x \<notin> addrs t \<Longrightarrow> rotated_right x t = t"
  by (induction t) auto

lemma inorder_rotated_right [simp]: "inorder (rotated_right x t) = inorder t"
  by (induction t) (auto split: tree.splits)

lemma nodes_rotated_right [simp]: "nodes (rotated_right x t) = nodes t"
  by (induction t) (auto split: tree.splits)

lemma rotr_pre:
  assumes "is_tree h par p t" "x \<in> addrs t" "h x = Some nx" "left nx = Some y"
    and "\<forall>g. par = Some g \<longrightarrow> g \<notin> addrs t \<and> h g \<noteq> None"
  shows "\<exists>ny. h y = Some ny \<and> x \<noteq> y \<and>
     (\<forall>b. right ny = Some b \<longrightarrow> b \<noteq> x \<and> b \<noteq> y \<and> h b \<noteq> None) \<and>
     (\<forall>g. parent nx = Some g \<longrightarrow> g \<noteq> x \<and> g \<noteq> y \<and> right ny \<noteq> Some g \<and> h g \<noteq> None)"
  using assms
proof (induction t arbitrary: par p)
  case Leaf
  then show ?case by simp
next
  case (Br l a v c r)
  from Br.prems(1) obtain n where n: "p = Some a" "h a = Some n" "a \<notin> addrs l" "a \<notin> addrs r"
    "addrs l \<inter> addrs r = {}" "parent n = par"
    "is_tree h (Some a) (left n) l" "is_tree h (Some a) (right n) r"
    by (auto split: option.splits)
  consider "x = a" | "x \<in> addrs l" | "x \<in> addrs r" using Br.prems(2) by auto
  then show ?case
  proof cases
    case 1
    with n Br.prems have nx: "nx = n" "left n = Some y" by auto
    with n(7) obtain ll w d lr ny where l: "l = Br ll y w d lr" "h y = Some ny"
      "y \<notin> addrs lr" "is_tree h (Some y) (right ny) lr"
      by (cases l) (auto split: option.splits)
    have "\<forall>b. right ny = Some b \<longrightarrow> b \<in> addrs lr \<and> h b \<noteq> None"
      using l(4) is_tree_node[OF l(4)] by (fastforce dest: is_tree_top)
    with 1 n nx l Br.prems(5) show ?thesis by auto
  next
    case 2
    have "\<forall>g. Some a = Some g \<longrightarrow> g \<notin> addrs l \<and> h g \<noteq> None" using n by auto
    from Br.IH(1)[OF n(7) 2 Br.prems(3,4) this] show ?thesis .
  next
    case 3
    have "\<forall>g. Some a = Some g \<longrightarrow> g \<notin> addrs r \<and> h g \<noteq> None" using n by auto
    from Br.IH(2)[OF n(8) 3 Br.prems(3,4) this] show ?thesis .
  qed
qed

lemma rotr_is_tree:
  assumes "is_tree h par p t" "x \<in> addrs t" "h x = Some nx" "left nx = Some y" "h y = Some ny"
    and "\<forall>g. par = Some g \<longrightarrow> g \<notin> addrs t"
  shows "is_tree (rotr_heap h x nx y ny) par (if p = Some x then Some y else p) (rotated_right x t)"
  using assms(1,2,6)
proof (induction t arbitrary: par p)
  case Leaf
  then show ?case by simp
next
  case (Br l a v c r)
  let ?h = "rotr_heap h x nx y ny"
  from Br.prems(1) obtain n where n: "p = Some a" "h a = Some n" "a \<notin> addrs l" "a \<notin> addrs r"
    "addrs l \<inter> addrs r = {}" "parent n = par" "val n = v" "color n = c"
    "is_tree h (Some a) (left n) l" "is_tree h (Some a) (right n) r"
    by (auto split: option.splits)
  have par: "\<forall>g. par = Some g \<longrightarrow> g \<noteq> a \<and> g \<notin> addrs l \<and> g \<notin> addrs r"
    using Br.prems(3) by auto
  consider "x = a" | "x \<noteq> a" "x \<in> addrs l" | "x \<noteq> a" "x \<in> addrs r" using Br.prems(2) by auto
  then show ?case
  proof cases
    case 1
    with n assms have nx: "nx = n" "left n = Some y" by auto
    with n(9) assms(5) obtain ll w d lr where l: "l = Br ll y w d lr"
      "y \<notin> addrs ll" "y \<notin> addrs lr" "addrs ll \<inter> addrs lr = {}" "val ny = w" "color ny = d"
      "parent ny = Some a" "is_tree h (Some y) (left ny) ll" "is_tree h (Some y) (right ny) lr"
      by (cases l) (auto split: option.splits)
    have rlr: "\<forall>b. Some b = right ny \<longrightarrow> b \<in> addrs lr"
      using l(9) by (auto dest: is_tree_top dest!: sym[of "Some _" "right ny"])
    have "\<forall>b\<in>addrs r. ?h b = h b"
      using 1 n l nx rlr par by (auto simp: rotr_heap_def)
    with n(10) have A1: "is_tree ?h (Some a) (right n) r" by (rule is_tree_frame)
    have "\<forall>b\<in>addrs lr. ?h b =
        (if right ny = Some b then map_option (\<lambda>n. n\<lparr>parent := Some a\<rparr>) (h b) else h b)"
      using 1 n l nx par by (auto simp: rotr_heap_def eq_commute[of "Some _" "right ny"])
    with l(9) have A2: "is_tree ?h (Some a) (right ny) lr" by (rule is_tree_reparent)
    have "\<forall>b\<in>addrs ll. ?h b = h b"
      using 1 n l nx rlr par by (auto simp: rotr_heap_def)
    with l(8) have A3: "is_tree ?h (Some y) (left ny) ll" by (rule is_tree_frame)
    have hx: "?h a = Some (n\<lparr>left := right ny, parent := Some y\<rparr>)"
      using 1 nx by (simp add: rotr_heap_def)
    have hy: "?h y = Some (ny\<lparr>right := Some a, parent := par\<rparr>)"
      using 1 nx n l by (auto simp: rotr_heap_def)
    from A1 A2 A3 hx hy 1 n l show ?thesis by auto
  next
    case 2
    from is_tree_node[OF n(9) 2(2)] assms(3,4) have
      y: "y \<in> addrs l" and px: "if left n = Some x then parent nx = Some a
                                  else \<exists>g\<in>addrs l. parent nx = Some g"
      by auto
    from is_tree_node[OF n(9) y] assms(5) have ry: "\<forall>b. Some b = right ny \<longrightarrow> b \<in> addrs l"
      by (auto dest!: sym[of "Some _" "right ny"])
    have rx: "right n \<noteq> Some x" using is_tree_top[of h "Some a" x r] n(10) 2 n(5) by auto
    have "\<forall>g. Some a = Some g \<longrightarrow> g \<notin> addrs l" using n by simp
    from Br.IH(1)[OF n(9) 2(2) this]
    have L: "is_tree ?h (Some a) (if left n = Some x then Some y else left n) (rotated_right x l)" .
    have "\<forall>b\<in>addrs r. ?h b = h b"
      using 2 n y ry px by (auto simp: rotr_heap_def split: if_splits)
    with n(10) have R: "is_tree ?h (Some a) (right n) r" by (rule is_tree_frame)
    have xr: "rotated_right x r = r" using 2 n by (auto intro: rotated_right_id)
    have ha: "?h a = Some (if left n = Some x then n\<lparr>left := Some y\<rparr> else n)"
      using 2 n y ry px rx by (auto simp: rotr_heap_def split: if_splits)
    from L R ha xr 2 n show ?thesis by (auto split: if_splits)
  next
    case 3
    from is_tree_node[OF n(10) 3(2)] assms(3,4) have
      y: "y \<in> addrs r" and px: "if right n = Some x then parent nx = Some a
                                  else \<exists>g\<in>addrs r. parent nx = Some g"
      by auto
    from is_tree_node[OF n(10) y] assms(5) have ry: "\<forall>b. Some b = right ny \<longrightarrow> b \<in> addrs r"
      by (auto dest!: sym[of "Some _" "right ny"])
    have "\<forall>g. Some a = Some g \<longrightarrow> g \<notin> addrs r" using n by simp
    from Br.IH(2)[OF n(10) 3(2) this]
    have R: "is_tree ?h (Some a) (if right n = Some x then Some y else right n) (rotated_right x r)" .
    have "\<forall>b\<in>addrs l. ?h b = h b"
      using 3 n y ry px by (auto simp: rotr_heap_def split: if_splits)
    with n(9) have L: "is_tree ?h (Some a) (left n) l" by (rule is_tree_frame)
    have xl: "rotated_right x l = l" using 3 n by (auto intro: rotated_right_id)
    have ha: "?h a = Some (if right n = Some x then n\<lparr>right := Some y\<rparr> else n)"
      using 3 n y ry px by (auto simp: rotr_heap_def split: if_splits)
    from L R ha xl 3 n show ?thesis by (auto split: if_splits)
  qed
qed

lemma dom_rotr_heap:
  "h x = Some nx \<Longrightarrow> h y = Some ny \<Longrightarrow> dom (rotr_heap h x nx y ny) = dom h"
  by (auto simp: rotr_heap_def dom_def split: if_splits)

lemma rotateRight_holds:
  assumes "holds s t" "x \<in> addrs t" "heap s x = Some nx" "left nx = Some y"
  shows "\<exists>s'. rotateRight s (Some x) = Inr (Some y, s') \<and> holds s' (rotated_right x t) \<and>
     dom (heap s') = dom (heap s) \<and> fresh s' = fresh s"
proof -
  from assms(1) have tree: "is_tree (heap s) None (root s) t" by (simp add: holds_def)
  have "\<forall>g. (None::ptr) = Some g \<longrightarrow> g \<notin> addrs t \<and> heap s g \<noteq> None" by simp
  from rotr_pre[OF tree assms(2,3,4) this] obtain ny where ny: "heap s y = Some ny" "x \<noteq> y"
    "\<forall>b. right ny = Some b \<longrightarrow> b \<noteq> x \<and> b \<noteq> y \<and> heap s b \<noteq> None"
    "\<forall>g. parent nx = Some g \<longrightarrow> g \<noteq> x \<and> g \<noteq> y \<and> right ny \<noteq> Some g \<and> heap s g \<noteq> None"
    by blast
  let ?s = "s\<lparr>heap := rotr_heap (heap s) x nx y ny,
              root := (if parent nx = None then Some y else root s)\<rparr>"
  have run: "rotateRight s (Some x) = Inr (Some y, ?s)"
    using assms(3,4) ny by (rule rotateRight_effect)
  have "\<forall>g. (None::ptr) = Some g \<longrightarrow> g \<notin> addrs t" by simp
  from rotr_is_tree[OF tree assms(2,3,4) ny(1) this]
  have t': "is_tree (rotr_heap (heap s) x nx y ny) None
              (if root s = Some x then Some y else root s) (rotated_right x t)" .
  from is_tree_node[OF tree assms(2)] assms(3)
  have "parent nx = None \<longleftrightarrow> root s = Some x" by (auto split: if_splits)
  with t' have "holds ?s (rotated_right x t)" by (simp add: holds_def)
  with run dom_rotr_heap[OF assms(3) ny(1)] show ?thesis by simp
qed

text \<open>
  C7 (for every node \<open>x\<close> whose right child exists, \<open>rotateLeft(x)\<close> keeps the number of
  nodes and the in-order sequence of values and returns the child that took the position
  of \<open>x\<close>; symmetrically \<open>rotateRight(x)\<close> for a node whose left child exists). For every
  store that holds a tree \<open>t\<close> and every node \<open>x\<close> of \<open>t\<close>: if the right child \<open>y\<close> of \<open>x\<close>
  exists, \<open>rotateLeft\<close> completes, returns \<open>y\<close>, and the store then holds \<open>rotated_left x t\<close>,
  the tree in which \<open>y\<close> stands where \<open>x\<close> stood, \<open>x\<close> is the left child of \<open>y\<close> and the former
  left subtree of \<open>y\<close> is the right subtree of \<open>x\<close> (all parent links and \<open>_root\<close> included);
  that tree has as many nodes and the same in-order sequence. Likewise for \<open>rotateRight\<close>.
\<close>

theorem rotations_preserve_inorder:
  assumes "holds s t" and "x \<in> addrs t" and "heap s x = Some nx"
  shows "(\<forall>y. right nx = Some y \<longrightarrow>
            (\<exists>s'. rotateLeft s (Some x) = Inr (Some y, s') \<and> holds s' (rotated_left x t)) \<and>
            nodes (rotated_left x t) = nodes t \<and> inorder (rotated_left x t) = inorder t)
       \<and> (\<forall>y. left nx = Some y \<longrightarrow>
            (\<exists>s'. rotateRight s (Some x) = Inr (Some y, s') \<and> holds s' (rotated_right x t)) \<and>
            nodes (rotated_right x t) = nodes t \<and> inorder (rotated_right x t) = inorder t)"
  using rotateLeft_holds[OF assms] rotateRight_holds[OF assms] by auto

theorem rotations_preserve_inorder_witness:
  "case run 20 RedBlackTree (map Insert [1, 0, 2::int]) of
     Inl e \<Rightarrow> False
   | Inr s \<Rightarrow>
      (\<exists>s'. rotateLeft s (Some 0) = Inr (Some 2, s') \<and>
            holds s' (Br (Br (Br Leaf 1 0 RED Leaf) 0 1 BLACK Leaf) 2 2 RED Leaf)) \<and>
      (\<exists>s'. rotateRight s (Some 0) = Inr (Some 1, s') \<and>
            holds s' (Br Leaf 1 0 RED (Br Leaf 0 1 BLACK (Br Leaf 2 2 RED Leaf))))"
proof -
  let ?t = "Br (Br Leaf 1 (0::int) RED Leaf) 0 1 BLACK (Br Leaf 2 2 RED Leaf)"
  have c: "result_holds (run 20 RedBlackTree (map Insert [1, 0, 2::int])) ?t"
    by code_simp
  show ?thesis
  proof (cases "run 20 RedBlackTree (map Insert [1, 0, 2::int])")
    case (Inl e)
    with c show ?thesis by (simp add: result_holds_def)
  next
    case (Inr s)
    with c have h: "holds s ?t" by (simp add: result_holds_def)
    then obtain nx where nx: "heap s 0 = Some nx" "right nx = Some 2" "left nx = Some 1"
      by (auto simp: holds_def split: option.splits)
    have x: "0 \<in> addrs ?t" by simp
    from rotations_preserve_inorder[OF h x nx(1)] nx Inr show ?thesis by simp
  qed
qed


section \<open>Copying and clearing\<close>

lemma link_left_tree:
  assumes "is_tree (heap s) par0 c t'" "f \<notin> addrs t'" "heap s f = Some m"
  shows "\<exists>s'. link_left s (Some f) c = Inr s' \<and> heap s' f = Some (m\<lparr>left := c\<rparr>) \<and>
     is_tree (heap s') (Some f) c t' \<and>
     (\<forall>a. a \<noteq> f \<longrightarrow> a \<notin> addrs t' \<longrightarrow> heap s' a = heap s a) \<and>
     fresh s' = fresh s \<and> root s' = root s \<and> dom (heap s') = dom (heap s)"
proof (cases t')
  case Leaf
  with assms show ?thesis by (auto simp: link_left_def set_defs)
next
  case (Br l b x d r)
  with assms obtain nb where b: "c = Some b" "heap s b = Some nb" "b \<noteq> f" 
    by (auto split: option.splits)
  let ?s = "s\<lparr>heap := (heap s)(f \<mapsto> m\<lparr>left := c\<rparr>, b \<mapsto> nb\<lparr>parent := Some f\<rparr>)\<rparr>"
  have run: "link_left s (Some f) c = Inr ?s"
    using b assms(3) by (simp add: link_left_def set_defs)
  have "\<forall>a\<in>addrs t'. heap ?s a =
      (if c = Some a then map_option (\<lambda>n. n\<lparr>parent := Some f\<rparr>) (heap s a) else heap s a)"
    using b assms(2) by auto
  with assms(1) have "is_tree (heap ?s) (Some f) c t'" by (rule is_tree_reparent)
  moreover have "b \<in> addrs t'" using Br b assms(1) by auto
  ultimately show ?thesis using run b assms(3) by (auto simp: dom_def)
qed

lemma link_right_tree:
  assumes "is_tree (heap s) par0 c t'" "f \<notin> addrs t'" "heap s f = Some m"
  shows "\<exists>s'. link_right s (Some f) c = Inr s' \<and> heap s' f = Some (m\<lparr>right := c\<rparr>) \<and>
     is_tree (heap s') (Some f) c t' \<and>
     (\<forall>a. a \<noteq> f \<longrightarrow> a \<notin> addrs t' \<longrightarrow> heap s' a = heap s a) \<and>
     fresh s' = fresh s \<and> root s' = root s \<and> dom (heap s') = dom (heap s)"
proof (cases t')
  case Leaf
  with assms show ?thesis by (auto simp: link_right_def set_defs)
next
  case (Br l b x d r)
  with assms obtain nb where b: "c = Some b" "heap s b = Some nb" "b \<noteq> f" 
    by (auto split: option.splits)
  let ?s = "s\<lparr>heap := (heap s)(f \<mapsto> m\<lparr>right := c\<rparr>, b \<mapsto> nb\<lparr>parent := Some f\<rparr>)\<rparr>"
  have run: "link_right s (Some f) c = Inr ?s"
    using b assms(3) by (simp add: link_right_def set_defs)
  have "\<forall>a\<in>addrs t'. heap ?s a =
      (if c = Some a then map_option (\<lambda>n. n\<lparr>parent := Some f\<rparr>) (heap s a) else heap s a)"
    using b assms(2) by auto
  with assms(1) have "is_tree (heap ?s) (Some f) c t'" by (rule is_tree_reparent)
  moreover have "b \<in> addrs t'" using Br b assms(1) by auto
  ultimately show ?thesis using run b assms(3) by (auto simp: dom_def)
qed

lemma is_tree_live: "is_tree h par p t \<Longrightarrow> a \<in> addrs t \<Longrightarrow> h a \<noteq> None"
  by (drule (1) is_tree_node) auto

lemma fresh_unused_root [simp]: "fresh_unused (s\<lparr>root := r\<rparr>) = fresh_unused s"
  by (simp add: fresh_unused_def)

lemma fresh_unused_dom:
  "fresh_unused s \<Longrightarrow> dom (heap s') = dom (heap s) \<Longrightarrow> fresh s' = fresh s \<Longrightarrow>
   fresh_unused s'"
  unfolding fresh_unused_def by (metis domIff)

lemma copy_tree:
  "is_tree (heap s) par p t \<Longrightarrow> fresh_unused s \<Longrightarrow> height t < k \<Longrightarrow>
   \<exists>p' s'. copy k s p = Inr (p', s') \<and> copy_post s t p' s'"
proof (induction t arbitrary: s par p k)
  case Leaf
  then obtain k' where "k = Suc k'" by (cases k) auto
  with Leaf show ?case by (auto simp: copy_post_def intro!: exI[of _ Leaf])
next
  case (Br l a x c r)
  from Br.prems(3) obtain k' where k: "k = Suc k'" "height l < k'" "height r < k'"
    by (cases k) auto
  from Br.prems(1) obtain n where n: "p = Some a" "heap s a = Some n" "val n = x" "color n = c"
    "is_tree (heap s) (Some a) (left n) l" "is_tree (heap s) (Some a) (right n) r"
    by (auto split: option.splits)
  let ?f = "fresh s"
  let ?m = "\<lparr>val = x, color = c, left = None, right = None, parent = None\<rparr>"
  let ?s1 = "s\<lparr>heap := (heap s)(?f \<mapsto> ?m), fresh := Suc ?f\<rparr>"
  have live: "b < ?f" if "b \<in> addrs (Br l a x c r)" for b
  proof -
    from Br.prems(1) that have "heap s b \<noteq> None" by (rule is_tree_live)
    with Br.prems(2) show "b < ?f" unfolding fresh_unused_def by (meson not_le)
  qed
  have s1: "new_Node s (val n) (color n) = (Some ?f, ?s1)" using n by (simp add: new_Node_def)
  have fu1: "fresh_unused ?s1" using Br.prems(2) by (simp add: fresh_unused_def)
  have "\<forall>b\<in>addrs l. heap ?s1 b = heap s b" using live by auto
  with n(5) have "is_tree (heap ?s1) (Some a) (left n) l" by (rule is_tree_frame)
  from Br.IH(1)[OF this fu1 k(2)] obtain c1 s2 l' where
    c1: "copy k' ?s1 (left n) = Inr (c1, s2)" and
    l': "is_tree (heap s2) None c1 l'" "same_content l l'" "addrs l' \<subseteq> {Suc ?f..<fresh s2}"
      "\<forall>b<Suc ?f. heap s2 b = heap ?s1 b" "Suc ?f \<le> fresh s2" "fresh_unused s2" "root s2 = root s"
    by (auto simp: copy_post_def)
  have l'_range: "Suc ?f \<le> b \<and> b < fresh s2" if "b \<in> addrs l'" for b
    using l'(3) that by auto
  have old2: "heap s2 b = heap s b" if "b < ?f" for b
    using l'(4)[rule_format, of b] that by simp
  have f2: "heap s2 ?f = Some ?m" using l'(4)[rule_format, of ?f] by simp
  have fl: "?f \<notin> addrs l'" using l'_range by fastforce
  from link_left_tree[OF l'(1) fl f2] obtain s3 where
    s3: "link_left s2 (Some ?f) c1 = Inr s3" "heap s3 ?f = Some (?m\<lparr>left := c1\<rparr>)"
      "is_tree (heap s3) (Some ?f) c1 l'"
      "\<forall>b. b \<noteq> ?f \<longrightarrow> b \<notin> addrs l' \<longrightarrow> heap s3 b = heap s2 b"
      "fresh s3 = fresh s2" "root s3 = root s2" "dom (heap s3) = dom (heap s2)"
    by blast
  have old3: "heap s3 b = heap s b" if "b < ?f" for b
  proof -
    from that have "b \<noteq> ?f" by simp
    moreover from that l'_range[of b] have "b \<notin> addrs l'" by auto
    ultimately have "heap s3 b = heap s2 b" using s3(4) by blast
    with old2[OF that] show ?thesis by simp
  qed
  have fu3: "fresh_unused s3" using l'(6) s3(7,5) by (rule fresh_unused_dom)
  have "\<forall>b\<in>addrs r. heap s3 b = heap s b" using live old3 by auto
  with n(6) have "is_tree (heap s3) (Some a) (right n) r" by (rule is_tree_frame)
  from Br.IH(2)[OF this fu3 k(3)] obtain c2 s4 r' where
    c2: "copy k' s3 (right n) = Inr (c2, s4)" and
    r': "is_tree (heap s4) None c2 r'" "same_content r r'" "addrs r' \<subseteq> {fresh s3..<fresh s4}"
      "\<forall>b<fresh s3. heap s4 b = heap s3 b" "fresh s3 \<le> fresh s4" "fresh_unused s4"
      "root s4 = root s3"
    by (auto simp: copy_post_def)
  have r'_range: "fresh s2 \<le> b \<and> b < fresh s4" if "b \<in> addrs r'" for b
    using r'(3) s3(5) that by auto
  have old4: "heap s4 b = heap s3 b" if "b < fresh s2" for b
    using r'(4)[rule_format, of b] that s3(5) by simp
  have f4: "heap s4 ?f = Some (?m\<lparr>left := c1\<rparr>)" using old4[of ?f] s3(2) l'(5) by simp
  have fr: "?f \<notin> addrs r'" using r'_range l'(5) by fastforce
  from link_right_tree[OF r'(1) fr f4] obtain s5 where
    s5: "link_right s4 (Some ?f) c2 = Inr s5" "heap s5 ?f = Some (?m\<lparr>left := c1, right := c2\<rparr>)"
      "is_tree (heap s5) (Some ?f) c2 r'"
      "\<forall>b. b \<noteq> ?f \<longrightarrow> b \<notin> addrs r' \<longrightarrow> heap s5 b = heap s4 b"
      "fresh s5 = fresh s4" "root s5 = root s4" "dom (heap s5) = dom (heap s4)"
    by auto
  have get1: "get ?s1 (Some a) left = Inr (left n)" using n(2) live[of a] by simp
  have get3: "get s3 (Some a) right = Inr (right n)" using n(2) old3[of a] live[of a] by simp
  have run: "copy k s p = Inr (Some ?f, s5)"
    using k n s1 c1 s3(1) c2 s5(1) get1 get3
    by (simp add: deref_def)
  have "heap s5 b = heap s3 b" if "b \<in> addrs l'" for b
  proof -
    from that l'_range[of b] have b: "b \<noteq> ?f" "b < fresh s2" by auto
    with r'_range[of b] have "b \<notin> addrs r'" by auto
    with b s5(4) have "heap s5 b = heap s4 b" by blast
    with old4[OF b(2)] show ?thesis by simp
  qed
  then have "\<forall>b\<in>addrs l'. heap s5 b = heap s3 b" by blast
  with s3(3) have L: "is_tree (heap s5) (Some ?f) c1 l'" by (rule is_tree_frame)
  have disj: "addrs l' \<inter> addrs r' = {}" using l'_range r'_range by fastforce
  have T: "is_tree (heap s5) None (Some ?f) (Br l' ?f x c r')"
    using L s5(2,3) disj fl fr by simp
  have old5: "heap s5 b = heap s b" if "b < ?f" for b
  proof -
    from that l'(5) have b: "b \<noteq> ?f" "b < fresh s2" by auto
    with r'_range[of b] have "b \<notin> addrs r'" by auto
    with b s5(4) have "heap s5 b = heap s4 b" by blast
    with old4[OF b(2)] old3[OF that] show ?thesis by simp
  qed
  have fu5: "fresh_unused s5" using r'(6) s5(7,5) by (rule fresh_unused_dom)
  have rng: "addrs (Br l' ?f x c r') \<subseteq> {?f..<fresh s5}"
    using l'_range r'_range s5(5) r'(5) s3(5) l'(5) by fastforce
  have "copy_post s (Br l a x c r) (Some ?f) s5"
    unfolding copy_post_def
    using T l'(2) r'(2) rng old5 fu5 s5(5,6) r'(5,7) s3(5,6) l'(5,7)
    by (intro exI[of _ "Br l' ?f x c r'"]) auto
  with run show ?case by blast
qed

lemma delete_Some [simp]:
  "heap s a = Some n \<Longrightarrow> delete s (Some a) = Inr (s\<lparr>heap := (heap s)(a := None)\<rparr>)"
  by (simp add: delete_def)

lemma clear_tree:
  "is_tree (heap s) par p t \<Longrightarrow> height t < k \<Longrightarrow>
   \<exists>s'. clear k s p = Inr s' \<and> heap s' = (\<lambda>a. if a \<in> addrs t then None else heap s a) \<and>
        root s' = root s \<and> fresh s' = fresh s"
proof (induction t arbitrary: s par p k)
  case Leaf
  then obtain k' where "k = Suc k'" by (cases k) auto
  with Leaf show ?case by auto
next
  case (Br l a x c r)
  from Br.prems(2) obtain k' where k: "k = Suc k'" "height l < k'" "height r < k'"
    by (cases k) auto
  from Br.prems(1) obtain n where n: "p = Some a" "heap s a = Some n" "a \<notin> addrs l" "a \<notin> addrs r"
    "addrs l \<inter> addrs r = {}"
    "is_tree (heap s) (Some a) (left n) l" "is_tree (heap s) (Some a) (right n) r"
    by (auto split: option.splits)
  from Br.IH(1)[OF n(6) k(2)] obtain s1 where
    s1: "clear k' s (left n) = Inr s1" "heap s1 = (\<lambda>b. if b \<in> addrs l then None else heap s b)"
      "root s1 = root s" "fresh s1 = fresh s"
    by blast
  let ?s2 = "s1\<lparr>heap := (heap s1)(a \<mapsto> n\<lparr>left := None\<rparr>)\<rparr>"
  have a1: "heap s1 a = Some n" using s1(2) n by simp
  have "\<forall>b\<in>addrs r. heap ?s2 b = heap s b" using s1(2) n by auto
  with n(7) have "is_tree (heap ?s2) (Some a) (right n) r" by (rule is_tree_frame)
  from Br.IH(2)[OF this k(3)] obtain s3 where
    s3: "clear k' ?s2 (right n) = Inr s3"
      "heap s3 = (\<lambda>b. if b \<in> addrs r then None else heap ?s2 b)"
      "root s3 = root ?s2" "fresh s3 = fresh ?s2"
    by blast
  have a3: "heap s3 a = Some (n\<lparr>left := None\<rparr>)" using s3(2) n by simp
  let ?s4 = "s3\<lparr>heap := (heap s3)(a := None)\<rparr>"
  have "clear k s p = Inr ?s4"
    using k n s1(1) a1 s3(1) a3 by (simp add: set_defs)
  moreover have "heap ?s4 = (\<lambda>b. if b \<in> addrs (Br l a x c r) then None else heap s b)"
    using s3(2) s1(2) by (auto simp: fun_eq_iff)
  ultimately show ?case using s3(3,4) s1(3,4) by simp
qed

lemma same_content_inorder: "same_content t t' \<Longrightarrow> inorder t' = inorder t"
  by (induction t t' rule: same_content.induct) auto

lemma same_content_nodes: "same_content t t' \<Longrightarrow> nodes t' = nodes t"
  by (induction t t' rule: same_content.induct) auto

lemma put_fu: "put s p f = Inr s' \<Longrightarrow> fresh_unused s \<longrightarrow> fresh_unused s'"
  by (auto simp: put_def set_defs delete_def new_Node_def fresh_unused_def split: option.splits)

lemma set_color_fu: "set_color s p c = Inr s' \<Longrightarrow> fresh_unused s \<longrightarrow> fresh_unused s'"
  by (auto simp: put_def set_defs delete_def new_Node_def fresh_unused_def split: option.splits)

lemma set_left_fu: "set_left s p q = Inr s' \<Longrightarrow> fresh_unused s \<longrightarrow> fresh_unused s'"
  by (auto simp: put_def set_defs delete_def new_Node_def fresh_unused_def split: option.splits)

lemma set_right_fu: "set_right s p q = Inr s' \<Longrightarrow> fresh_unused s \<longrightarrow> fresh_unused s'"
  by (auto simp: put_def set_defs delete_def new_Node_def fresh_unused_def split: option.splits)

lemma set_parent_fu: "set_parent s p q = Inr s' \<Longrightarrow> fresh_unused s \<longrightarrow> fresh_unused s'"
  by (auto simp: put_def set_defs delete_def new_Node_def fresh_unused_def split: option.splits)

lemma set_val_fu: "set_val s p x = Inr s' \<Longrightarrow> fresh_unused s \<longrightarrow> fresh_unused s'"
  by (auto simp: put_def set_defs delete_def new_Node_def fresh_unused_def split: option.splits)

lemma delete_fu: "delete s p = Inr s' \<Longrightarrow> fresh_unused s \<longrightarrow> fresh_unused s'"
  by (auto simp: put_def set_defs delete_def new_Node_def fresh_unused_def split: option.splits)

lemma new_Node_fu: "new_Node s x c = (p, s') \<Longrightarrow> fresh_unused s \<longrightarrow> fresh_unused s'"
  by (auto simp: put_def set_defs delete_def new_Node_def fresh_unused_def split: option.splits)

lemmas prim_fu = set_color_fu set_left_fu set_right_fu set_parent_fu set_val_fu delete_fu

lemma rotateLeft_fu: "rotateLeft s p = Inr (q, s') \<Longrightarrow> fresh_unused s \<longrightarrow> fresh_unused s'"
  unfolding rotateLeft_def
  by (auto elim!: seqE split: if_splits prod.splits option.splits dest!:  prim_fu new_Node_fu)

lemma rotateRight_fu: "rotateRight s p = Inr (q, s') \<Longrightarrow> fresh_unused s \<longrightarrow> fresh_unused s'"
  unfolding rotateRight_def
  by (auto elim!: seqE split: if_splits prod.splits option.splits dest!:  prim_fu new_Node_fu)

lemma recolor_rl_fu: "recolor_rl s p = Inr s' \<Longrightarrow> fresh_unused s \<longrightarrow> fresh_unused s'"
  unfolding recolor_rl_def
  by (auto elim!: seqE split: if_splits prod.splits option.splits dest!: rotateLeft_fu rotateRight_fu prim_fu new_Node_fu)

lemma recolor_lr_fu: "recolor_lr s p = Inr s' \<Longrightarrow> fresh_unused s \<longrightarrow> fresh_unused s'"
  unfolding recolor_lr_def
  by (auto elim!: seqE split: if_splits prod.splits option.splits dest!: rotateLeft_fu rotateRight_fu prim_fu new_Node_fu)

lemma recolor_pair_fu: "recolor_pair s p q = Inr s' \<Longrightarrow> fresh_unused s \<longrightarrow> fresh_unused s'"
  unfolding recolor_pair_def
  by (auto elim!: seqE split: if_splits prod.splits option.splits dest!: rotateLeft_fu rotateRight_fu prim_fu new_Node_fu)

lemma rotate_niblings_fu: "rotate_niblings s p q = Inr s' \<Longrightarrow> fresh_unused s \<longrightarrow> fresh_unused s'"
  unfolding rotate_niblings_def
  by (auto elim!: seqE split: if_splits prod.splits option.splits dest!: rotateLeft_fu rotateRight_fu prim_fu new_Node_fu)

lemma rotate_red_child_fu: "rotate_red_child s p = Inr s' \<Longrightarrow> fresh_unused s \<longrightarrow> fresh_unused s'"
  unfolding rotate_red_child_def
  by (auto elim!: seqE split: if_splits prod.splits option.splits dest!: rotateLeft_fu rotateRight_fu prim_fu new_Node_fu)

lemma swap_values_fu: "swap_values s p q = Inr s' \<Longrightarrow> fresh_unused s \<longrightarrow> fresh_unused s'"
  unfolding swap_values_def
  by (auto elim!: seqE split: if_splits prod.splits option.splits dest!: rotateLeft_fu rotateRight_fu prim_fu new_Node_fu)

lemma unlink_leaf_fu: "unlink_leaf s p = Inr s' \<Longrightarrow> fresh_unused s \<longrightarrow> fresh_unused s'"
  unfolding unlink_leaf_def
  by (auto elim!: seqE split: if_splits prod.splits option.splits dest!: rotateLeft_fu rotateRight_fu prim_fu new_Node_fu)

lemma link_left_fu: "link_left s p q = Inr s' \<Longrightarrow> fresh_unused s \<longrightarrow> fresh_unused s'"
  unfolding link_left_def
  by (auto elim!: seqE split: if_splits prod.splits option.splits dest!: rotateLeft_fu rotateRight_fu prim_fu new_Node_fu)

lemma link_right_fu: "link_right s p q = Inr s' \<Longrightarrow> fresh_unused s \<longrightarrow> fresh_unused s'"
  unfolding link_right_def
  by (auto elim!: seqE split: if_splits prod.splits option.splits dest!: rotateLeft_fu rotateRight_fu prim_fu new_Node_fu)

lemmas block_fu = rotateLeft_fu rotateRight_fu recolor_rl_fu recolor_lr_fu recolor_pair_fu rotate_niblings_fu rotate_red_child_fu swap_values_fu unlink_leaf_fu link_left_fu link_right_fu

lemma hang_left_fu: "hang_left s p v = Inr s' \<Longrightarrow> fresh_unused s \<longrightarrow> fresh_unused s'"
  unfolding hang_left_def
  by (auto elim!: seqE split: if_splits prod.splits option.splits dest!: prim_fu new_Node_fu)

lemma hang_right_fu: "hang_right s p v = Inr s' \<Longrightarrow> fresh_unused s \<longrightarrow> fresh_unused s'"
  unfolding hang_right_def
  by (auto elim!: seqE split: if_splits prod.splits option.splits dest!: prim_fu new_Node_fu)

lemma attach_left_fu:
  "attach_left s p v = Inr fl \<Longrightarrow> fresh_unused s \<longrightarrow> fresh_unused (case fl of Return s' \<Rightarrow> s' | Next s' \<Rightarrow> s')"
  unfolding attach_left_def
  by (auto elim!: seqE split: if_splits prod.splits option.splits dest!: block_fu hang_left_fu hang_right_fu prim_fu new_Node_fu)

lemma attach_right_fu:
  "attach_right s p v = Inr fl \<Longrightarrow> fresh_unused s \<longrightarrow> fresh_unused (case fl of Return s' \<Rightarrow> s' | Next s' \<Rightarrow> s')"
  unfolding attach_right_def
  by (auto elim!: seqE split: if_splits prod.splits option.splits dest!: block_fu hang_left_fu hang_right_fu prim_fu new_Node_fu)

lemma insert_rotate_fu: "insert_rotate s p = Inr (q, s') \<Longrightarrow> fresh_unused s \<longrightarrow> fresh_unused s'"
  unfolding insert_rotate_def
  by (auto elim!: seqE split: if_splits prod.splits option.splits dest!: block_fu hang_left_fu hang_right_fu prim_fu new_Node_fu)

lemma insert_next_fu: "insert_next s p v = Inr (q, s') \<Longrightarrow> fresh_unused s \<longrightarrow> fresh_unused s'"
  unfolding insert_next_def
  by (auto elim!: seqE split: if_splits prod.splits option.splits dest!: insert_rotate_fu prim_fu new_Node_fu)

lemma insert_priv_fu:
  "insert_priv k s p v = Inr s' \<Longrightarrow> fresh_unused s \<longrightarrow> fresh_unused s'"
proof (induction k arbitrary: s p s')
  case 0 then show ?case by simp
next
  case (Suc k)
  note IH = Suc.IH
  from Suc.prems show ?case
    apply (simp only: insert_priv.simps)
    apply (auto elim!: seqE split: if_splits prod.splits flow.splits
           dest!: attach_left_fu attach_right_fu insert_next_fu new_Node_fu IH)
    done
qed

lemma remove_fu:
  "(\<forall>(s::'a::linorder RedBlackTree) p v s'.
      remove_priv k s p v = Inr s' \<longrightarrow> fresh_unused s \<longrightarrow> fresh_unused s') \<and>
   (\<forall>(s::'a RedBlackTree) p s'. removeNode k s p = Inr s' \<longrightarrow> fresh_unused s \<longrightarrow> fresh_unused s')"
proof (induction k)
  case 0 show ?case by simp
next
  case (Suc k)
  note IH1 = Suc.IH[THEN conjunct1, THEN spec, THEN spec, THEN spec, THEN spec, THEN mp]
  note IH2 = Suc.IH[THEN conjunct2, THEN spec, THEN spec, THEN spec, THEN mp]
  show ?case
    apply (simp only: remove_priv.simps removeNode.simps Let_def)
    apply (intro conjI allI impI)
    apply (auto elim!: seqE split: if_splits dest!: block_fu IH1 IH2)
    done
qed

lemma remove_priv_fu:
  "remove_priv k s p v = Inr s' \<Longrightarrow> fresh_unused s \<longrightarrow> fresh_unused s'"
  by (rule remove_fu[THEN conjunct1, THEN spec, THEN spec, THEN spec, THEN spec, THEN mp])

lemma insert_pub_fu: "insert_pub k s v = Inr s' \<Longrightarrow> fresh_unused s \<longrightarrow> fresh_unused s'"
  unfolding insert_pub_def
  by (auto elim!: seqE dest!: insert_priv_fu prim_fu)

lemma remove_pub_fu: "remove_pub k s v = Inr s' \<Longrightarrow> fresh_unused s \<longrightarrow> fresh_unused s'"
  unfolding remove_pub_def
  by (auto elim!: seqE split: if_splits dest!: remove_priv_fu prim_fu)

lemma run_fu: "run k s cs = Inr s' \<Longrightarrow> fresh_unused s \<Longrightarrow> fresh_unused s'"
proof (induction cs arbitrary: s)
  case Nil then show ?case by simp
next
  case (Cons c cs)
  then show ?case by (cases c) (auto elim!: seqE dest!: insert_pub_fu remove_pub_fu)
qed

lemma fresh_unused_empty: "fresh_unused RedBlackTree"
  by (simp add: fresh_unused_def RedBlackTree_def)

lemma same_content_height: "same_content t t' \<Longrightarrow> height t' = height t"
  by (induction t t' rule: same_content.induct) auto

text \<open>
  C10 (copy construction and copy assignment produce a deep copy: same shape, values and
  colours, parent links re-established, the source unchanged, no node shared). Both trees
  live in one store. For a store whose unused addresses are free and that holds the tree
  \<open>t\<close> of \<open>rhs\<close>: the copy constructor completes, the new object holds a tree \<open>t'\<close> with the
  shape, values and colours of \<open>t\<close> (\<open>same_content\<close>; \<open>holds\<close> includes every parent link and
  the absent parent of the root), no node of \<open>t'\<close> is a node of \<open>t\<close>, and every node of \<open>t\<close>
  is as before. Copy assignment to a different object first frees the nodes of its own tree
  \<open>t1\<close> and then does the same; assigning an object to itself changes nothing.
\<close>

theorem copy_is_deep:
  "(holds rhs t \<and> fresh_unused rhs \<and> height t < k \<longrightarrow>
      (\<exists>this t'. copy_construct k rhs = Inr this \<and> holds this t' \<and> same_content t t' \<and>
         addrs t' \<inter> addrs t = {} \<and> is_tree (heap this) None (root rhs) t \<and>
         (\<forall>a\<in>addrs t. heap this a = heap rhs a) \<and> fresh_unused this))
   \<and> (holds this t1 \<and> is_tree (heap this) None rhs_root t \<and> addrs t1 \<inter> addrs t = {} \<and>
       fresh_unused this \<and> height t1 < k \<and> height t < k \<longrightarrow>
      (\<exists>this' t'. copy_assign k this False rhs_root = Inr this' \<and> holds this' t' \<and>
         same_content t t' \<and> addrs t' \<inter> addrs t = {} \<and>
         is_tree (heap this') None rhs_root t \<and> (\<forall>a\<in>addrs t. heap this' a = heap this a) \<and>
         (\<forall>a\<in>addrs t1. heap this' a = None) \<and> fresh_unused this'))
   \<and> copy_assign k this True rhs_root = Inr this"
proof (intro conjI impI)
  assume a: "holds rhs t \<and> fresh_unused rhs \<and> height t < k"
  then have tree: "is_tree (heap rhs) None (root rhs) t" by (simp add: holds_def)
  have below: "b < fresh rhs" if "b \<in> addrs t" for b
  proof -
    from tree that have "heap rhs b \<noteq> None" by (rule is_tree_live)
    with a show ?thesis unfolding fresh_unused_def by (meson not_le)
  qed
  from a have fu: "fresh_unused rhs" and hk: "height t < k" by simp_all
  from copy_tree[OF tree fu hk] obtain p' s' t' where
    c: "copy k rhs (root rhs) = Inr (p', s')" "is_tree (heap s') None p' t'" "same_content t t'"
      "addrs t' \<subseteq> {fresh rhs..<fresh s'}" "\<forall>b<fresh rhs. heap s' b = heap rhs b"
      "fresh_unused s'"
    unfolding copy_post_def by blast
  have old: "\<forall>b\<in>addrs t. heap s' b = heap rhs b" using c(5) below by blast
  with tree have "is_tree (heap s') None (root rhs) t" by (rule is_tree_frame)
  moreover have "addrs t' \<inter> addrs t = {}" using c(4) below by fastforce
  ultimately show "\<exists>this t'. copy_construct k rhs = Inr this \<and> holds this t' \<and> same_content t t' \<and>
         addrs t' \<inter> addrs t = {} \<and> is_tree (heap this) None (root rhs) t \<and>
         (\<forall>a\<in>addrs t. heap this a = heap rhs a) \<and> fresh_unused this"
    using c old by (auto simp: copy_construct_def holds_def intro!: exI[of _ t'])
next
  assume a: "holds this t1 \<and> is_tree (heap this) None rhs_root t \<and> addrs t1 \<inter> addrs t = {} \<and>
       fresh_unused this \<and> height t1 < k \<and> height t < k"
  then have t1: "is_tree (heap this) None (root this) t1" by (simp add: holds_def)
  from a have hk1: "height t1 < k" and hk: "height t < k" by simp_all
  from clear_tree[OF t1 hk1] obtain s1 where
    s1: "clear k this (root this) = Inr s1"
      "heap s1 = (\<lambda>b. if b \<in> addrs t1 then None else heap this b)" "fresh s1 = fresh this"
    by blast
  let ?s2 = "s1\<lparr>root := None\<rparr>"
  have me: "make_empty k this = Inr ?s2" using s1(1) by (simp add: make_empty_def)
  have fu: "fresh_unused ?s2" using a s1(2,3) by (simp add: fresh_unused_def)
  have "\<forall>b\<in>addrs t. heap ?s2 b = heap this b" using s1(2) a by auto
  with a have tree: "is_tree (heap ?s2) None rhs_root t" by (blast intro: is_tree_frame)
  have below: "b < fresh ?s2" if "b \<in> addrs t" for b
  proof -
    from tree that have "heap ?s2 b \<noteq> None" by (rule is_tree_live)
    with fu show ?thesis unfolding fresh_unused_def by (meson not_le)
  qed
  have below1: "b < fresh ?s2" if "b \<in> addrs t1" for b
  proof -
    from t1 that have "heap this b \<noteq> None" by (rule is_tree_live)
    moreover have "fresh ?s2 = fresh this" using s1(3) by simp
    ultimately show ?thesis using a unfolding fresh_unused_def by (metis not_le)
  qed
  from copy_tree[OF tree fu hk] obtain p' s' t' where
    c: "copy k ?s2 rhs_root = Inr (p', s')" "is_tree (heap s') None p' t'" "same_content t t'"
      "addrs t' \<subseteq> {fresh ?s2..<fresh s'}" "\<forall>b<fresh ?s2. heap s' b = heap ?s2 b"
      "fresh_unused s'"
    unfolding copy_post_def by blast
  have old: "\<forall>b\<in>addrs t. heap s' b = heap this b" using c(5) below s1(2) a by fastforce
  with a have "is_tree (heap s') None rhs_root t" by (blast intro: is_tree_frame)
  moreover have "addrs t' \<inter> addrs t = {}" using c(4) below by fastforce
  moreover have "\<forall>b\<in>addrs t1. heap s' b = None" using c(5) below1 s1(2) by fastforce
  ultimately show "\<exists>this' t'. copy_assign k this False rhs_root = Inr this' \<and> holds this' t' \<and>
         same_content t t' \<and> addrs t' \<inter> addrs t = {} \<and>
         is_tree (heap this') None rhs_root t \<and> (\<forall>a\<in>addrs t. heap this' a = heap this a) \<and>
         (\<forall>a\<in>addrs t1. heap this' a = None) \<and> fresh_unused this'"
    using c old me by (auto simp: copy_assign_def holds_def intro!: exI[of _ t'])
next
  show "copy_assign k this True rhs_root = Inr this" by (simp add: copy_assign_def)
qed

theorem copy_is_deep_witness:
  "case run 20 RedBlackTree (map Insert [1, 0, 2::int]) of
     Inl e \<Rightarrow> False
   | Inr rhs \<Rightarrow>
      (case copy_construct 20 rhs of
         Inl e \<Rightarrow> False
       | Inr this \<Rightarrow>
          (\<exists>t'. holds this t' \<and> inorder t' = [0, 1, 2]) \<and>
          (case copy_assign 20 this False (root rhs) of
             Inl e \<Rightarrow> False
           | Inr this' \<Rightarrow> \<exists>t'. holds this' t' \<and> inorder t' = [0, 1, 2]))"
proof -
  let ?t = "Br (Br Leaf 1 (0::int) RED Leaf) 0 1 BLACK (Br Leaf 2 2 RED Leaf)"
  have c: "result_holds (run 20 RedBlackTree (map Insert [1, 0, 2::int])) ?t"
    by code_simp
  show ?thesis
  proof (cases "run 20 RedBlackTree (map Insert [1, 0, 2::int])")
    case (Inl e)
    with c show ?thesis by (simp add: result_holds_def)
  next
    case (Inr rhs)
    with c have h: "holds rhs ?t" by (simp add: result_holds_def)
    have fu: "fresh_unused rhs" using Inr fresh_unused_empty by (rule run_fu)
    have k: "height ?t < 20" by simp
    from copy_is_deep[of rhs ?t 20] h fu k obtain this t' where
      cc: "copy_construct 20 rhs = Inr this" "holds this t'" "same_content ?t t'"
        "addrs t' \<inter> addrs ?t = {}" "is_tree (heap this) None (root rhs) ?t" "fresh_unused this"
      by blast
    have k': "height t' < 20" using same_content_height[OF cc(3)] by simp
    from copy_is_deep[of _ ?t 20 this t' "root rhs"] cc k k' obtain this' t'' where
      ca: "copy_assign 20 this False (root rhs) = Inr this'" "holds this' t''"
        "same_content ?t t''"
      by blast
    from Inr cc ca same_content_inorder[OF cc(3)] same_content_inorder[OF ca(3)]
    show ?thesis by auto
  qed
qed


lemma addrs_recolored [simp]: "addrs (recolored a d t) = addrs t"
  by (induction t) auto

lemma inorder_recolored [simp]: "inorder (recolored a d t) = inorder t"
  by (induction t) auto

lemma recolored_id: "a \<notin> addrs t \<Longrightarrow> recolored a d t = t"
  by (induction t) auto

lemma is_tree_recolored:
  assumes "is_tree h par p t" "h a = Some n"
    and h': "\<forall>e. h' e = (if e = a then Some (n\<lparr>color := d\<rparr>) else h e)"
  shows "is_tree h' par p (recolored a d t)"
  using assms(1)
proof (induction t arbitrary: par p)
  case Leaf
  then show ?case by simp
next
  case (Br l b x c r)
  from Br.prems(1) obtain m where m: "p = Some b" "h b = Some m" "b \<notin> addrs l" "b \<notin> addrs r"
    "addrs l \<inter> addrs r = {}" "parent m = par" "val m = x" "color m = c"
    "is_tree h (Some b) (left m) l" "is_tree h (Some b) (right m) r"
    by (auto split: option.splits)
  show ?case
  proof (cases "b = a")
    case True
    have "\<forall>e\<in>addrs l. h' e = h e" using True m h' by auto
    with m(9) have L: "is_tree h' (Some b) (left m) l" by (rule is_tree_frame)
    have "\<forall>e\<in>addrs r. h' e = h e" using True m h' by auto
    with m(10) have R: "is_tree h' (Some b) (right m) r" by (rule is_tree_frame)
    have "h' b = Some (m\<lparr>color := d\<rparr>)" using True h' m assms(2) by simp
    with L R True m show ?thesis by simp
  next
    case False
    then have "h' b = Some m" using h' m by simp
    with Br.IH(1)[OF m(9)] Br.IH(2)[OF m(10)] False m
    show ?thesis by simp
  qed
qed

lemma put_SomeE:
  "put s p f = Inr s' \<Longrightarrow>
   (\<And>a n. p = Some a \<Longrightarrow> heap s a = Some n \<Longrightarrow> s' = s\<lparr>heap := (heap s)(a \<mapsto> f n)\<rparr> \<Longrightarrow> P) \<Longrightarrow> P"
  by (auto simp: put_def split: option.splits)

lemma get_SomeE:
  "get s p f = Inr x \<Longrightarrow> (\<And>a n. p = Some a \<Longrightarrow> heap s a = Some n \<Longrightarrow> x = f n \<Longrightarrow> P) \<Longrightarrow> P"
  by (auto simp: get_def deref_def seq_def split: option.splits)

lemma set_color_exact:
  assumes "set_color s p c = Inr s'" "exact s t"
  shows "\<exists>t'. exact s' t' \<and> inorder t' = inorder t \<and> addrs t' = addrs t"
proof -
  from assms(1) obtain a n where a: "p = Some a" "heap s a = Some n"
    "s' = s\<lparr>heap := (heap s)(a \<mapsto> n\<lparr>color := c\<rparr>)\<rparr>"
    unfolding set_color_def by (rule put_SomeE)
  from assms(2) have "is_tree (heap s) None (root s) t" by (simp add: exact_def holds_def)
  from is_tree_recolored[OF this a(2), of "heap s'" c] a(3)
  have "is_tree (heap s') None (root s') (recolored a c t)" by simp
  with assms(2) a have "exact s' (recolored a c t)"
    by (auto simp: exact_def holds_def)
  then show ?thesis by (intro exI[of _ "recolored a c t"]) simp
qed

lemma rotateLeft_exact:
  assumes "rotateLeft s p = Inr (q, s')" "exact s t"
  shows "\<exists>t'. exact s' t' \<and> inorder t' = inorder t \<and> addrs t' = addrs t"
proof -
  from assms(1) obtain temp tl where 1: "get s p right = Inr temp" "get s temp left = Inr tl"
    unfolding rotateLeft_def by (elim seqE)
  from 1(1) obtain x nx where x: "p = Some x" "heap s x = Some nx" "temp = right nx"
    by (rule get_SomeE)
  from 1(2) x obtain y where y: "right nx = Some y" by (auto elim: get_SomeE)
  from assms(2) x have xt: "x \<in> addrs t" and h: "holds s t" by (auto simp: exact_def)
  from rotateLeft_holds[OF h xt x(2) y] assms(1) x
  have "holds s' (rotated_left x t)" "dom (heap s') = dom (heap s)" by auto
  with assms(2) have "exact s' (rotated_left x t)" by (simp add: exact_def)
  then show ?thesis by (intro exI[of _ "rotated_left x t"]) simp
qed

lemma rotateRight_exact:
  assumes "rotateRight s p = Inr (q, s')" "exact s t"
  shows "\<exists>t'. exact s' t' \<and> inorder t' = inorder t \<and> addrs t' = addrs t"
proof -
  from assms(1) obtain temp tl where 1: "get s p left = Inr temp" "get s temp right = Inr tl"
    unfolding rotateRight_def by (elim seqE)
  from 1(1) obtain x nx where x: "p = Some x" "heap s x = Some nx" "temp = left nx"
    by (rule get_SomeE)
  from 1(2) x obtain y where y: "left nx = Some y" by (auto elim: get_SomeE)
  from assms(2) x have xt: "x \<in> addrs t" and h: "holds s t" by (auto simp: exact_def)
  from rotateRight_holds[OF h xt x(2) y] assms(1) x
  have "holds s' (rotated_right x t)" "dom (heap s') = dom (heap s)" by auto
  with assms(2) have "exact s' (rotated_right x t)" by (simp add: exact_def)
  then show ?thesis by (intro exI[of _ "rotated_right x t"]) simp
qed

lemma set_color_tw: "set_color s p c = Inr s' \<Longrightarrow> tree_with xs s \<longrightarrow> tree_with xs s'"
proof
  assume op: "set_color s p c = Inr s'" and "tree_with xs s"
  then obtain t where t: "exact s t" "addrs t = fst xs" "inorder t = snd xs"
    by (auto simp: tree_with_def)
  from set_color_exact[OF op t(1)] t show "tree_with xs s'"
    by (auto simp: tree_with_def)
qed

lemma rotateLeft_tw: "rotateLeft s p = Inr (q, s') \<Longrightarrow> tree_with xs s \<longrightarrow> tree_with xs s'"
proof
  assume op: "rotateLeft s p = Inr (q, s')" and "tree_with xs s"
  then obtain t where t: "exact s t" "addrs t = fst xs" "inorder t = snd xs"
    by (auto simp: tree_with_def)
  from rotateLeft_exact[OF op t(1)] t show "tree_with xs s'"
    by (auto simp: tree_with_def)
qed

lemma rotateRight_tw: "rotateRight s p = Inr (q, s') \<Longrightarrow> tree_with xs s \<longrightarrow> tree_with xs s'"
proof
  assume op: "rotateRight s p = Inr (q, s')" and "tree_with xs s"
  then obtain t where t: "exact s t" "addrs t = fst xs" "inorder t = snd xs"
    by (auto simp: tree_with_def)
  from rotateRight_exact[OF op t(1)] t show "tree_with xs s'"
    by (auto simp: tree_with_def)
qed

lemmas prim_tw = set_color_tw rotateLeft_tw rotateRight_tw

lemma recolor_pair_tw: "recolor_pair s p q = Inr s' \<Longrightarrow> tree_with xs s \<longrightarrow> tree_with xs s'"
  unfolding recolor_pair_def
  by (auto elim!: seqE split: if_splits dest!: prim_tw[where xs=xs])

lemma rotate_niblings_tw: "rotate_niblings s p q = Inr s' \<Longrightarrow> tree_with xs s \<longrightarrow> tree_with xs s'"
  unfolding rotate_niblings_def
  by (auto elim!: seqE split: if_splits dest!: prim_tw[where xs=xs])

lemma rotate_red_child_tw: "rotate_red_child s p = Inr s' \<Longrightarrow> tree_with xs s \<longrightarrow> tree_with xs s'"
  unfolding rotate_red_child_def
  by (auto elim!: seqE split: if_splits dest!: prim_tw[where xs=xs])

lemmas block_tw = recolor_pair_tw rotate_niblings_tw rotate_red_child_tw

lemma inorder_addr: "is_tree h par p t \<Longrightarrow> a \<in> addrs t \<Longrightarrow> h a = Some n \<Longrightarrow> val n \<in> set (inorder t)"
proof (induction t arbitrary: par p)
  case Leaf
  then show ?case by simp
next
  case (Br l b x c r)
  then show ?case by (auto split: option.splits)
qed

lemma tree_with_val:
  assumes "tree_with xs s" "get s p val = Inr v"
  shows "v \<in> set (snd xs)"
proof -
  from assms(1) obtain t where t: "is_tree (heap s) None (root s) t" "dom (heap s) = addrs t"
    "inorder t = snd xs"
    by (auto simp: tree_with_def exact_def holds_def)
  from assms(2) obtain a n where a: "p = Some a" "heap s a = Some n" "v = val n"
    by (rule get_SomeE)
  from a(2) t(2) have "a \<in> addrs t" by auto
  from inorder_addr[OF t(1) this a(2)] a(3) t(3) show ?thesis by simp
qed

lemma remove_priv_tw:
  "v \<notin> set (snd xs) \<Longrightarrow> remove_priv k s p (Const v) = Inr s' \<Longrightarrow>
   tree_with xs s \<longrightarrow> tree_with xs s'"
proof (induction k arbitrary: s p s')
  case 0
  then show ?case by simp
next
  case (Suc k)
  note IH = Suc.IH[OF Suc.prems(1)]
  have nv: "\<And>s p P. tree_with xs s \<Longrightarrow> get s p val = Inr v \<Longrightarrow> P"
    using Suc.prems(1) by (auto dest: tree_with_val)
  from Suc.prems(2) show ?case
    apply (simp only: remove_priv.simps Let_def)
    apply (auto elim!: seqE split: if_splits simp: read_ref_def dest!: block_tw[where xs=xs] IH)
    apply (erule (1) nv)+
    done
qed

lemma exact_from_fresh:
  assumes "holds s t" "fresh_unused s" "{..<fresh s} \<subseteq> addrs t"
  shows "exact s t"
proof -
  have "dom (heap s) \<subseteq> addrs t"
  proof
    fix a assume "a \<in> dom (heap s)"
    then have "heap s a \<noteq> None" by auto
    with assms(2) have "a < fresh s" unfolding fresh_unused_def by (meson not_le)
    with assms(3) show "a \<in> addrs t" by auto
  qed
  moreover have "addrs t \<subseteq> dom (heap s)"
    using assms(1) by (auto simp: holds_def dest: is_tree_live)
  ultimately show ?thesis using assms(1) by (simp add: exact_def)
qed




lemma hung_left_id: "a \<notin> addrs t \<Longrightarrow> hung_left a f v t = t"
  by (induction t) auto

lemma is_tree_hung_left:
  assumes "is_tree h par p t" "a \<in> addrs t" "h a = Some n" "left n = None" "f \<notin> addrs t"
    and h': "\<forall>e. h' e = (if e = f then Some \<lparr>val = v, color = RED, left = None, right = None,
                                           parent = Some a\<rparr>
                         else if e = a then Some (n\<lparr>left := Some f\<rparr>) else h e)"
  shows "is_tree h' par p (hung_left a f v t) \<and>
         set (inorder (hung_left a f v t)) = insert v (set (inorder t)) \<and>
         addrs (hung_left a f v t) = insert f (addrs t)"
  using assms(1,2,5)
proof (induction t arbitrary: par p)
  case Leaf
  then show ?case by simp
next
  case (Br l b x c r)
  from Br.prems(1) obtain m where m: "p = Some b" "h b = Some m" "b \<notin> addrs l" "b \<notin> addrs r"
    "addrs l \<inter> addrs r = {}" "parent m = par" "val m = x" "color m = c"
    "is_tree h (Some b) (left m) l" "is_tree h (Some b) (right m) r"
    by (auto split: option.splits)
  from Br.prems(3) have f: "f \<noteq> b" "f \<notin> addrs l" "f \<notin> addrs r" by auto
  consider "b = a" | "b \<noteq> a" "a \<in> addrs l" | "b \<noteq> a" "a \<in> addrs r" using Br.prems(2) by auto
  then show ?case
  proof cases
    case 1
    with m(2) assms(3) have mn: "m = n" by simp
    with m(9) assms(4) have lf: "l = Leaf" by (simp add: is_tree_Leaf_iff)
    have "\<forall>e\<in>addrs r. h' e = h e" using 1 m(3,4) f h' by auto
    with m(10) have K: "is_tree h' (Some b) (right m) r" by (rule is_tree_frame)
    have hb: "h' b = Some (n\<lparr>left := Some f\<rparr>)" using 1 f(1) h' by simp
    have hf: "h' f = Some \<lparr>val = v, color = RED, left = None, right = None, parent = Some a\<rparr>"
      using h' by simp
    have T: "is_tree h' par p (hung_left a f v (Br l b x c r))"
      using K hb hf 1 lf mn m(1,3,4,6,7,8) f by simp
    have S: "set (inorder (hung_left a f v (Br l b x c r))) = insert v (set (inorder (Br l b x c r)))"
      using 1 lf by auto
    have A: "addrs (hung_left a f v (Br l b x c r)) = insert f (addrs (Br l b x c r))"
      using 1 lf by auto
    from T S A show ?thesis by blast
  next
    case 2
    then have ar: "a \<notin> addrs r" using m(5) by auto
    have "\<forall>e\<in>addrs r. h' e = h e" using 2(1) ar f h' by auto
    with m(10) have R: "is_tree h' (Some b) (right m) r" by (rule is_tree_frame)
    have hb: "h' b = Some m" using 2(1) f(1) h' m(2) by simp
    have hr: "hung_left a f v r = r" using ar by (rule hung_left_id)
    from Br.IH(1)[OF m(9) 2(2) f(2)]
    have L: "is_tree h' (Some b) (left m) (hung_left a f v l)"
      and SL: "set (inorder (hung_left a f v l)) = insert v (set (inorder l))"
      and AL: "addrs (hung_left a f v l) = insert f (addrs l)" by simp_all
    have T: "is_tree h' par p (hung_left a f v (Br l b x c r))"
      using L R hb hr AL 2(1) m(1,3,4,5,6,7,8) f by simp
    have S: "set (inorder (hung_left a f v (Br l b x c r))) = insert v (set (inorder (Br l b x c r)))"
      using 2(1) hr SL by auto
    have A: "addrs (hung_left a f v (Br l b x c r)) = insert f (addrs (Br l b x c r))"
      using 2(1) hr AL by auto
    from T S A show ?thesis by blast
  next
    case 3
    then have al: "a \<notin> addrs l" using m(5) by auto
    have "\<forall>e\<in>addrs l. h' e = h e" using 3(1) al f h' by auto
    with m(9) have L: "is_tree h' (Some b) (left m) l" by (rule is_tree_frame)
    have hb: "h' b = Some m" using 3(1) f(1) h' m(2) by simp
    have hl: "hung_left a f v l = l" using al by (rule hung_left_id)
    from Br.IH(2)[OF m(10) 3(2) f(3)]
    have R: "is_tree h' (Some b) (right m) (hung_left a f v r)"
      and SR: "set (inorder (hung_left a f v r)) = insert v (set (inorder r))"
      and AR: "addrs (hung_left a f v r) = insert f (addrs r)" by simp_all
    have T: "is_tree h' par p (hung_left a f v (Br l b x c r))"
      using L R hb hl AR 3(1) m(1,3,4,5,6,7,8) f by simp
    have S: "set (inorder (hung_left a f v (Br l b x c r))) = insert v (set (inorder (Br l b x c r)))"
      using 3(1) hl SR by auto
    have A: "addrs (hung_left a f v (Br l b x c r)) = insert f (addrs (Br l b x c r))"
      using 3(1) hl AR by auto
    from T S A show ?thesis by blast
  qed
qed

lemma hung_right_id: "a \<notin> addrs t \<Longrightarrow> hung_right a f v t = t"
  by (induction t) auto

lemma is_tree_hung_right:
  assumes "is_tree h par p t" "a \<in> addrs t" "h a = Some n" "right n = None" "f \<notin> addrs t"
    and h': "\<forall>e. h' e = (if e = f then Some \<lparr>val = v, color = RED, left = None, right = None,
                                           parent = Some a\<rparr>
                         else if e = a then Some (n\<lparr>right := Some f\<rparr>) else h e)"
  shows "is_tree h' par p (hung_right a f v t) \<and>
         set (inorder (hung_right a f v t)) = insert v (set (inorder t)) \<and>
         addrs (hung_right a f v t) = insert f (addrs t)"
  using assms(1,2,5)
proof (induction t arbitrary: par p)
  case Leaf
  then show ?case by simp
next
  case (Br l b x c r)
  from Br.prems(1) obtain m where m: "p = Some b" "h b = Some m" "b \<notin> addrs l" "b \<notin> addrs r"
    "addrs l \<inter> addrs r = {}" "parent m = par" "val m = x" "color m = c"
    "is_tree h (Some b) (left m) l" "is_tree h (Some b) (right m) r"
    by (auto split: option.splits)
  from Br.prems(3) have f: "f \<noteq> b" "f \<notin> addrs l" "f \<notin> addrs r" by auto
  consider "b = a" | "b \<noteq> a" "a \<in> addrs l" | "b \<noteq> a" "a \<in> addrs r" using Br.prems(2) by auto
  then show ?case
  proof cases
    case 1
    with m(2) assms(3) have mn: "m = n" by simp
    with m(10) assms(4) have lf: "r = Leaf" by (simp add: is_tree_Leaf_iff)
    have "\<forall>e\<in>addrs l. h' e = h e" using 1 m(3,4) f h' by auto
    with m(9) have K: "is_tree h' (Some b) (left m) l" by (rule is_tree_frame)
    have hb: "h' b = Some (n\<lparr>right := Some f\<rparr>)" using 1 f(1) h' by simp
    have hf: "h' f = Some \<lparr>val = v, color = RED, left = None, right = None, parent = Some a\<rparr>"
      using h' by simp
    have T: "is_tree h' par p (hung_right a f v (Br l b x c r))"
      using K hb hf 1 lf mn m(1,3,4,6,7,8) f by simp
    have S: "set (inorder (hung_right a f v (Br l b x c r))) = insert v (set (inorder (Br l b x c r)))"
      using 1 lf by auto
    have A: "addrs (hung_right a f v (Br l b x c r)) = insert f (addrs (Br l b x c r))"
      using 1 lf by auto
    from T S A show ?thesis by blast
  next
    case 2
    then have ar: "a \<notin> addrs r" using m(5) by auto
    have "\<forall>e\<in>addrs r. h' e = h e" using 2(1) ar f h' by auto
    with m(10) have R: "is_tree h' (Some b) (right m) r" by (rule is_tree_frame)
    have hb: "h' b = Some m" using 2(1) f(1) h' m(2) by simp
    have hr: "hung_right a f v r = r" using ar by (rule hung_right_id)
    from Br.IH(1)[OF m(9) 2(2) f(2)]
    have L: "is_tree h' (Some b) (left m) (hung_right a f v l)"
      and SL: "set (inorder (hung_right a f v l)) = insert v (set (inorder l))"
      and AL: "addrs (hung_right a f v l) = insert f (addrs l)" by simp_all
    have T: "is_tree h' par p (hung_right a f v (Br l b x c r))"
      using L R hb hr AL 2(1) m(1,3,4,5,6,7,8) f by simp
    have S: "set (inorder (hung_right a f v (Br l b x c r))) = insert v (set (inorder (Br l b x c r)))"
      using 2(1) hr SL by auto
    have A: "addrs (hung_right a f v (Br l b x c r)) = insert f (addrs (Br l b x c r))"
      using 2(1) hr AL by auto
    from T S A show ?thesis by blast
  next
    case 3
    then have al: "a \<notin> addrs l" using m(5) by auto
    have "\<forall>e\<in>addrs l. h' e = h e" using 3(1) al f h' by auto
    with m(9) have L: "is_tree h' (Some b) (left m) l" by (rule is_tree_frame)
    have hb: "h' b = Some m" using 3(1) f(1) h' m(2) by simp
    have hl: "hung_right a f v l = l" using al by (rule hung_right_id)
    from Br.IH(2)[OF m(10) 3(2) f(3)]
    have R: "is_tree h' (Some b) (right m) (hung_right a f v r)"
      and SR: "set (inorder (hung_right a f v r)) = insert v (set (inorder r))"
      and AR: "addrs (hung_right a f v r) = insert f (addrs r)" by simp_all
    have T: "is_tree h' par p (hung_right a f v (Br l b x c r))"
      using L R hb hl AR 3(1) m(1,3,4,5,6,7,8) f by simp
    have S: "set (inorder (hung_right a f v (Br l b x c r))) = insert v (set (inorder (Br l b x c r)))"
      using 3(1) hl SR by auto
    have A: "addrs (hung_right a f v (Br l b x c r)) = insert f (addrs (Br l b x c r))"
      using 3(1) hl AR by auto
    from T S A show ?thesis by blast
  qed
qed

lemma hang_left_exact:
  assumes "hang_left s p v = Inr s'" "get s p left = Inr None" "exact s t" "fresh_unused s"
  shows "\<exists>t'. exact s' t' \<and> set (inorder t') = insert v (set (inorder t)) \<and> fresh_unused s'"
proof -
  from assms(2) obtain a n where a: "p = Some a" "heap s a = Some n" "left n = None"
    by (auto elim: get_SomeE)
  define f where "f = fresh s"
  from assms(3) have tree: "is_tree (heap s) None (root s) t" and dom: "dom (heap s) = addrs t"
    by (simp_all add: exact_def holds_def)
  from assms(4) have fn: "heap s f = None" by (simp add: fresh_unused_def f_def)
  with dom have ft: "f \<notin> addrs t" by auto
  from a dom have at: "a \<in> addrs t" by auto
  from fn a have af: "a \<noteq> f" by auto
  define m0 :: "'a Node" where
    "m0 = \<lparr>val = v, color = RED, left = None, right = None, parent = None\<rparr>"
  define m where "m = m0\<lparr>parent := Some a\<rparr>"
  define h' where "h' = (heap s)(f \<mapsto> m0, a \<mapsto> n\<lparr>left := Some f\<rparr>, f \<mapsto> m)"
  have run: "hang_left s p v = Inr (s\<lparr>heap := h', fresh := Suc f\<rparr>)"
    using a af by (simp add: hang_left_def new_Node_def set_defs f_def m0_def m_def h'_def)
  with assms(1) have s': "s' = s\<lparr>heap := h', fresh := Suc f\<rparr>" by simp
  have hp: "\<forall>e. h' e = (if e = f then Some \<lparr>val = v, color = RED, left = None, right = None,
                                           parent = Some a\<rparr>
                         else if e = a then Some (n\<lparr>left := Some f\<rparr>) else heap s e)"
    by (simp add: h'_def m_def m0_def)
  from is_tree_hung_left[OF tree at a(2,3) ft hp]
  have it: "is_tree h' None (root s) (hung_left a f v t)"
    and io: "set (inorder (hung_left a f v t)) = insert v (set (inorder t))"
    and ad: "addrs (hung_left a f v t) = insert f (addrs t)" by simp_all
  have "dom h' = insert f (dom (heap s))" using a(2) by (auto simp: h'_def)
  with ad dom have d': "dom h' = addrs (hung_left a f v t)" by simp
  have "a < f"
  proof (rule ccontr)
    assume "\<not> a < f"
    with a(2) assms(4) show False by (auto simp: fresh_unused_def f_def not_less)
  qed
  then have fu: "fresh_unused s'" using assms(4) unfolding s' fresh_unused_def h'_def f_def
    by auto
  have "exact s' (hung_left a f v t)" using it d' by (simp add: exact_def holds_def s')
  with io fu show ?thesis by blast
qed

lemma hang_right_exact:
  assumes "hang_right s p v = Inr s'" "get s p right = Inr None" "exact s t" "fresh_unused s"
  shows "\<exists>t'. exact s' t' \<and> set (inorder t') = insert v (set (inorder t)) \<and> fresh_unused s'"
proof -
  from assms(2) obtain a n where a: "p = Some a" "heap s a = Some n" "right n = None"
    by (auto elim: get_SomeE)
  define f where "f = fresh s"
  from assms(3) have tree: "is_tree (heap s) None (root s) t" and dom: "dom (heap s) = addrs t"
    by (simp_all add: exact_def holds_def)
  from assms(4) have fn: "heap s f = None" by (simp add: fresh_unused_def f_def)
  with dom have ft: "f \<notin> addrs t" by auto
  from a dom have at: "a \<in> addrs t" by auto
  from fn a have af: "a \<noteq> f" by auto
  define m0 :: "'a Node" where
    "m0 = \<lparr>val = v, color = RED, left = None, right = None, parent = None\<rparr>"
  define m where "m = m0\<lparr>parent := Some a\<rparr>"
  define h' where "h' = (heap s)(f \<mapsto> m0, a \<mapsto> n\<lparr>right := Some f\<rparr>, f \<mapsto> m)"
  have run: "hang_right s p v = Inr (s\<lparr>heap := h', fresh := Suc f\<rparr>)"
    using a af by (simp add: hang_right_def new_Node_def set_defs f_def m0_def m_def h'_def)
  with assms(1) have s': "s' = s\<lparr>heap := h', fresh := Suc f\<rparr>" by simp
  have hp: "\<forall>e. h' e = (if e = f then Some \<lparr>val = v, color = RED, left = None, right = None,
                                           parent = Some a\<rparr>
                         else if e = a then Some (n\<lparr>right := Some f\<rparr>) else heap s e)"
    by (simp add: h'_def m_def m0_def)
  from is_tree_hung_right[OF tree at a(2,3) ft hp]
  have it: "is_tree h' None (root s) (hung_right a f v t)"
    and io: "set (inorder (hung_right a f v t)) = insert v (set (inorder t))"
    and ad: "addrs (hung_right a f v t) = insert f (addrs t)" by simp_all
  have "dom h' = insert f (dom (heap s))" using a(2) by (auto simp: h'_def)
  with ad dom have d': "dom h' = addrs (hung_right a f v t)" by simp
  have "a < f"
  proof (rule ccontr)
    assume "\<not> a < f"
    with a(2) assms(4) show False by (auto simp: fresh_unused_def f_def not_less)
  qed
  then have fu: "fresh_unused s'" using assms(4) unfolding s' fresh_unused_def h'_def f_def
    by auto
  have "exact s' (hung_right a f v t)" using it d' by (simp add: exact_def holds_def s')
  with io fu show ?thesis by blast
qed

lemma set_color_ts: "set_color s p c = Inr s' \<Longrightarrow> tree_set X s \<longrightarrow> tree_set X s'"
proof
  assume op: "set_color s p c = Inr s'" and "tree_set X s"
  then obtain t where t: "exact s t" "fresh_unused s" "set (inorder t) = X"
    by (auto simp: tree_set_def)
  from set_color_fu[OF op] t(2) have "fresh_unused s'" by simp
  with set_color_exact[OF op t(1)] t(3) show "tree_set X s'"
    by (auto simp: tree_set_def)
qed

lemma rotateLeft_ts: "rotateLeft s p = Inr (q, s') \<Longrightarrow> tree_set X s \<longrightarrow> tree_set X s'"
proof
  assume op: "rotateLeft s p = Inr (q, s')" and "tree_set X s"
  then obtain t where t: "exact s t" "fresh_unused s" "set (inorder t) = X"
    by (auto simp: tree_set_def)
  from rotateLeft_fu[OF op] t(2) have "fresh_unused s'" by simp
  with rotateLeft_exact[OF op t(1)] t(3) show "tree_set X s'"
    by (auto simp: tree_set_def)
qed

lemma rotateRight_ts: "rotateRight s p = Inr (q, s') \<Longrightarrow> tree_set X s \<longrightarrow> tree_set X s'"
proof
  assume op: "rotateRight s p = Inr (q, s')" and "tree_set X s"
  then obtain t where t: "exact s t" "fresh_unused s" "set (inorder t) = X"
    by (auto simp: tree_set_def)
  from rotateRight_fu[OF op] t(2) have "fresh_unused s'" by simp
  with rotateRight_exact[OF op t(1)] t(3) show "tree_set X s'"
    by (auto simp: tree_set_def)
qed

lemmas prim_ts = set_color_ts rotateLeft_ts rotateRight_ts

lemma recolor_rl_ts: "recolor_rl s p = Inr s' \<Longrightarrow> tree_set X s \<longrightarrow> tree_set X s'"
  unfolding recolor_rl_def
  by (auto elim!: seqE split: if_splits dest!: prim_ts[where X=X])

lemma recolor_lr_ts: "recolor_lr s p = Inr s' \<Longrightarrow> tree_set X s \<longrightarrow> tree_set X s'"
  unfolding recolor_lr_def
  by (auto elim!: seqE split: if_splits dest!: prim_ts[where X=X])

lemma hang_left_ts:
  assumes "hang_left s p v = Inr s'" "get s p left = Inr None" "tree_set X s" "v \<in> X"
  shows "tree_set X s'"
proof -
  from assms(3) obtain t where t: "exact s t" "fresh_unused s" "set (inorder t) = X"
    by (auto simp: tree_set_def)
  from hang_left_exact[OF assms(1,2) t(1,2)] t(3) assms(4) show ?thesis
    by (auto simp: tree_set_def insert_absorb)
qed

lemma hang_right_ts:
  assumes "hang_right s p v = Inr s'" "get s p right = Inr None" "tree_set X s" "v \<in> X"
  shows "tree_set X s'"
proof -
  from assms(3) obtain t where t: "exact s t" "fresh_unused s" "set (inorder t) = X"
    by (auto simp: tree_set_def)
  from hang_right_exact[OF assms(1,2) t(1,2)] t(3) assms(4) show ?thesis
    by (auto simp: tree_set_def insert_absorb)
qed

lemma attach_left_ts:
  assumes "attach_left s p v = Inr fl" "tree_set X s" "v \<in> X"
  shows "case fl of Return s' \<Rightarrow> tree_set X s' | Next s' \<Rightarrow> tree_set X s'"
proof -
  from assms(1) obtain nl where nl: "get s p left = Inr nl"
    unfolding attach_left_def by (auto elim!: seqE)
  show ?thesis
  proof (cases "nl = None")
    case False
    with assms(1) nl have "fl = Next s" by (simp add: attach_left_def)
    with assms(2) show ?thesis by simp
  next
    case True
    with assms(1) nl obtain s1 where s1: "hang_left s p v = Inr s1"
      unfolding attach_left_def by (auto elim!: seqE)
    from hang_left_ts[OF s1 nl[unfolded True] assms(2,3)] have ts: "tree_set X s1" .
    from assms(1) nl True s1 ts show ?thesis
      unfolding attach_left_def
      by (auto elim!: seqE split: if_splits prod.splits
          dest!: prim_ts[where X=X] recolor_rl_ts[where X=X] recolor_lr_ts[where X=X])
  qed
qed

lemma attach_right_ts:
  assumes "attach_right s p v = Inr fl" "tree_set X s" "v \<in> X"
  shows "case fl of Return s' \<Rightarrow> tree_set X s' | Next s' \<Rightarrow> tree_set X s'"
proof -
  from assms(1) obtain nr where nr: "get s p right = Inr nr"
    unfolding attach_right_def by (auto elim!: seqE)
  show ?thesis
  proof (cases "nr = None")
    case False
    with assms(1) nr have "fl = Next s" by (simp add: attach_right_def)
    with assms(2) show ?thesis by simp
  next
    case True
    with assms(1) nr obtain s1 where s1: "hang_right s p v = Inr s1"
      unfolding attach_right_def by (auto elim!: seqE)
    from hang_right_ts[OF s1 nr[unfolded True] assms(2,3)] have ts: "tree_set X s1" .
    from assms(1) nr True s1 ts show ?thesis
      unfolding attach_right_def
      by (auto elim!: seqE split: if_splits prod.splits
          dest!: prim_ts[where X=X] recolor_rl_ts[where X=X] recolor_lr_ts[where X=X])
  qed
qed

lemma insert_rotate_ts: "insert_rotate s p = Inr (q, s') \<Longrightarrow> tree_set X s \<longrightarrow> tree_set X s'"
  unfolding insert_rotate_def
  by (auto elim!: seqE split: if_splits prod.splits
      dest!: prim_ts[where X=X] recolor_rl_ts[where X=X] recolor_lr_ts[where X=X])

lemma insert_next_ts: "insert_next s p v = Inr (q, s') \<Longrightarrow> tree_set X s \<longrightarrow> tree_set X s'"
  unfolding insert_next_def
  by (auto elim!: seqE split: if_splits prod.splits option.splits
      dest!: prim_ts[where X=X] insert_rotate_ts[where X=X])

lemma tree_set_root: "tree_set X s \<Longrightarrow> root s = None \<Longrightarrow> X = {}"
  by (auto simp: tree_set_def exact_def holds_def dest: is_tree_Leaf_iff)

lemma insert_priv_ts:
  "v \<in> X \<Longrightarrow> insert_priv k s p v = Inr s' \<Longrightarrow> tree_set X s \<longrightarrow> tree_set X s'"
proof (induction k arbitrary: s p s')
  case 0
  then show ?case by simp
next
  case (Suc k)
  note IH = Suc.IH[OF Suc.prems(1)]
  show ?case
  proof
    assume ts: "tree_set X s"
    with Suc.prems(1) have r: "root s \<noteq> None" by (auto dest: tree_set_root)
    have al: "\<And>fl. attach_left s p v = Inr fl \<Longrightarrow>
        case fl of Return s' \<Rightarrow> tree_set X s' | Next s' \<Rightarrow> tree_set X s'"
      using ts Suc.prems(1) by (rule attach_left_ts[rotated])
    have ar: "\<And>fl. attach_right s p v = Inr fl \<Longrightarrow>
        case fl of Return s' \<Rightarrow> tree_set X s' | Next s' \<Rightarrow> tree_set X s'"
      using ts Suc.prems(1) by (rule attach_right_ts[rotated])
    from Suc.prems(2) r ts show "tree_set X s'"
      apply (simp only: insert_priv.simps if_False)
      apply (auto elim!: seqE split: if_splits prod.splits flow.splits
             dest!: al ar insert_next_ts[where X=X] IH)
      done
  qed
qed




text \<open>
  Why the statement above speaks of the set of values and not of the nodes: after the inserts
  0, ..., 7 in ascending order the value 7 sits in the left subtree of the root 3, where the
  descent by comparison does not find it, and \<open>insert(7)\<close> allocates a second node (address 8)
  for it.
\<close>

lemma insert_present_adds_node:
  "result_holds (run 30 RedBlackTree (map Insert [0, 1, 2, 3, 4, 5, 6, 7::int]))
     (Br (Br (Br Leaf 0 0 BLACK Leaf) 1 1 RED (Br Leaf 2 2 BLACK (Br Leaf 7 7 RED Leaf)))
       3 3 BLACK
       (Br (Br Leaf 4 4 BLACK Leaf) 5 5 RED (Br Leaf 6 6 BLACK Leaf)))
   \<and> result_holds (run 30 RedBlackTree (map Insert [0, 1, 2, 3, 4, 5, 6, 7, 7::int]))
     (Br (Br (Br Leaf 0 0 BLACK Leaf) 1 1 BLACK (Br Leaf 2 2 BLACK (Br Leaf 7 7 RED Leaf)))
       3 3 BLACK
       (Br (Br Leaf 4 4 BLACK Leaf) 5 5 BLACK (Br Leaf 6 6 BLACK (Br Leaf 8 7 RED Leaf))))"
proof -
  have "result_holds (run 30 RedBlackTree (map Insert [0, 1, 2, 3, 4, 5, 6, 7::int]))
     (Br (Br (Br Leaf 0 0 BLACK Leaf) 1 1 RED (Br Leaf 2 2 BLACK (Br Leaf 7 7 RED Leaf)))
       3 3 BLACK
       (Br (Br Leaf 4 4 BLACK Leaf) 5 5 RED (Br Leaf 6 6 BLACK Leaf)))"
    by code_simp
  moreover have "result_holds (run 30 RedBlackTree (map Insert [0, 1, 2, 3, 4, 5, 6, 7, 7::int]))
     (Br (Br (Br Leaf 0 0 BLACK Leaf) 1 1 BLACK (Br Leaf 2 2 BLACK (Br Leaf 7 7 RED Leaf)))
       3 3 BLACK
       (Br (Br Leaf 4 4 BLACK Leaf) 5 5 BLACK (Br Leaf 6 6 BLACK (Br Leaf 8 7 RED Leaf))))"
    by code_simp
  ultimately show ?thesis by simp
qed


end
